theory Spec2Isabelle
  imports Main "HOL-Library.Sublist"
begin

section \<open>Adaptive AI cog: credential pool, context buffer and retry engine\<close>

text \<open>
  A shallow embedding of \<^verbatim>\<open>src/adaptiveai/adaptiveai.py\<close>. Python strings are modelled
  as their UTF-8 byte sequences (\<^typ>\<open>string\<close>), Python integers as \<^typ>\<open>int\<close>, the
  per-guild configuration as a record that every operation takes and returns, and the
  text-generation backend as a parameter: a function from its own state and a request
  to a result and a new state.
\<close>

subsection \<open>Strings\<close>

text \<open>The non-ASCII characters of the source's messages, as UTF-8 bytes.\<close>

definition cross_mark :: string where
  "cross_mark = [CHR 0xE2, CHR 0x9D, CHR 0x8C]"

definition check_mark :: string where
  "check_mark = [CHR 0xE2, CHR 0x9C, CHR 0x85]"

definition apostrophe :: string where
  "apostrophe = [CHR 0xE2, CHR 0x80, CHR 0x99]"

definition newline :: string where
  "newline = [CHR 0x0A]"

text \<open>
  \<^verbatim>\<open>str.lower()\<close>. On the bytes of a UTF-8 string only the ASCII capitals change here.
  Python also lowers non-ASCII capitals, but to non-ASCII letters, with one exception
  (U+0130 becomes \<^verbatim>\<open>i\<close> followed by U+0307); none of this creates or destroys an
  occurrence of the ASCII words the classifier below looks for.
\<close>

definition lower_char :: "char \<Rightarrow> char" where
  "lower_char c =
     (let n = (of_char c :: nat) in if 65 \<le> n \<and> n \<le> 90 then char_of (n + 32) else c)"

definition lower :: "string \<Rightarrow> string" where
  "lower s = map lower_char s"

text \<open>\<^verbatim>\<open>pat in s\<close> on strings: \<open>pat\<close> occurs in \<open>s\<close> as a contiguous block.\<close>

fun str_in :: "string \<Rightarrow> string \<Rightarrow> bool" where
  "str_in pat [] = (pat = [])"
| "str_in pat (c # cs) = (prefix pat (c # cs) \<or> str_in pat cs)"

text \<open>\<^verbatim>\<open>sep.join(xs)\<close>.\<close>

fun join :: "string \<Rightarrow> string list \<Rightarrow> string" where
  "join sep [] = []"
| "join sep [x] = x"
| "join sep (x # y # ys) = x @ sep @ join sep (y # ys)"

text \<open>\<^verbatim>\<open>str(n)\<close> for a non-negative integer, as used in the f-strings.\<close>

definition digit_char :: "nat \<Rightarrow> char" where
  "digit_char d = char_of (48 + d)"

fun str_nat :: "nat \<Rightarrow> string" where
  "str_nat n = (if n < 10 then [digit_char n] else str_nat (n div 10) @ [digit_char (n mod 10)])"

declare str_nat.simps [simp del]

subsection \<open>Python list indexing\<close>

datatype py_error = IndexError

text \<open>
  \<^verbatim>\<open>xs[i]\<close>. From 0 up to the length the index counts from the front, from -1 down to
  minus the length it counts from the back, and any other index raises.
\<close>

definition py_getitem :: "'a list \<Rightarrow> int \<Rightarrow> py_error + 'a" where
  "py_getitem xs i =
     (if 0 \<le> i \<and> i < int (length xs) then Inr (xs ! nat i)
      else if i < 0 \<and> - int (length xs) \<le> i then Inr (xs ! nat (int (length xs) + i))
      else Inl IndexError)"

subsection \<open>The per-guild configuration\<close>

text \<open>The three values registered by \<^verbatim>\<open>__init__\<close> (lines 17-23), with their defaults.\<close>

record guild_conf =
  freeroom_channel :: "int option"
  api_keys :: "string list"
  current_key_index :: int

definition default_guild :: guild_conf where
  "default_guild = \<lparr>freeroom_channel = None, api_keys = [], current_key_index = 0\<rparr>"

subsection \<open>The context buffer (lines 59-72)\<close>

text \<open>
  \<^verbatim>\<open>self.message_history\<close>: a dict from channel id to a \<^verbatim>\<open>deque(maxlen=50)\<close> of
  strings, empty when the cog is created (line 26).
\<close>

type_synonym message_history = "int \<rightharpoonup> string list"

definition init_history :: message_history where
  "init_history = Map.empty"




definition no_history_msg :: string where
  "no_history_msg = ''No previous messages available.''"

text \<open>\<^verbatim>\<open>messages[-30:]\<close> is the last 30 elements, or the whole list if it is shorter.\<close>

definition get_channel_context :: "message_history \<Rightarrow> int \<Rightarrow> string" where
  "get_channel_context h channel_id =
     (case h channel_id of
        None \<Rightarrow> no_history_msg
      | Some messages \<Rightarrow> join newline (drop (length messages - 30) messages))"

subsection \<open>The credential pool (lines 28-57, 212-261)\<close>

definition get_api_keys :: "guild_conf \<Rightarrow> string list" where
  "get_api_keys g = api_keys g"

text \<open>
  \<^verbatim>\<open>get_current_api_key\<close> returns \<^verbatim>\<open>None\<close> or a key and may write the index back;
  \<^verbatim>\<open>keys[current_index]\<close> can raise. The result is the value or the exception, with the
  configuration as the call leaves it.
\<close>

definition get_current_api_key :: "guild_conf \<Rightarrow> (py_error + string option) \<times> guild_conf" where
  "get_current_api_key g =
     (let keys = get_api_keys g in
      if keys = [] then (Inr None, g)
      else
        let current_index = current_key_index g in
        if current_index \<ge> int (length keys)
        then (map_sum id Some (py_getitem keys 0), g\<lparr>current_key_index := 0\<rparr>)
        else (map_sum id Some (py_getitem keys current_index), g))"

definition switch_to_next_key :: "guild_conf \<Rightarrow> bool \<times> guild_conf" where
  "switch_to_next_key g =
     (let keys = get_api_keys g in
      if length keys \<le> 1 then (False, g)
      else
        let current_index = current_key_index g;
            next_index = (current_index + 1) mod int (length keys)
        in (True, g\<lparr>current_key_index := next_index\<rparr>))"

text \<open>
  The two key commands answer with one message (\<^verbatim>\<open>ctx.send\<close>); the model returns that
  message and the configuration. Deleting the invoking chat message (lines 233-236)
  touches neither.
\<close>

definition max_keys_msg :: string where
  "max_keys_msg = cross_mark @ '' Maximum of 8 API keys reached!''"

definition duplicate_key_msg :: string where
  "duplicate_key_msg = cross_mark @ '' This API key is already added!''"

definition key_added_msg :: "nat \<Rightarrow> string" where
  "key_added_msg n =
     check_mark @ '' API key #'' @ str_nat n @ '' has been added! (Total: '' @ str_nat n @ ''/8)''"

definition add_api_key :: "guild_conf \<Rightarrow> string \<Rightarrow> string \<times> guild_conf" where
  "add_api_key g api_key =
     (let keys = get_api_keys g in
      if length keys \<ge> 8 then (max_keys_msg, g)
      else if api_key \<in> set keys then (duplicate_key_msg, g)
      else
        let keys' = keys @ [api_key]
        in (key_added_msg (length keys'), g\<lparr>api_keys := keys'\<rparr>))"

definition invalid_key_number_msg :: "nat \<Rightarrow> string" where
  "invalid_key_number_msg n = cross_mark @ '' Invalid key number! (1-'' @ str_nat n @ '')''"

definition key_removed_msg :: "nat \<Rightarrow> nat \<Rightarrow> string" where
  "key_removed_msg key_number n =
     check_mark @ '' API key #'' @ str_nat key_number @ '' has been removed! (Remaining: ''
       @ str_nat n @ '')''"

text \<open>\<^verbatim>\<open>keys.pop(i)\<close> for an index \<open>i\<close> already known to be in range.\<close>

definition pop_at :: "'a list \<Rightarrow> nat \<Rightarrow> 'a list" where
  "pop_at xs i = take i xs @ drop (Suc i) xs"

definition remove_api_key :: "guild_conf \<Rightarrow> int \<Rightarrow> string \<times> guild_conf" where
  "remove_api_key g key_number =
     (let keys = get_api_keys g in
      if key_number < 1 \<or> key_number > int (length keys)
      then (invalid_key_number_msg (length keys), g)
      else
        let keys' = pop_at keys (nat (key_number - 1));
            g1 = g\<lparr>api_keys := keys'\<rparr>;
            current_index = current_key_index g1;
            g2 = (if current_index \<ge> int (length keys') \<and> length keys' > 0
                  then g1\<lparr>current_key_index := 0\<rparr> else g1)
        in (key_removed_msg (nat key_number) (length keys'), g2))"

subsection \<open>The response engine (lines 74-144)\<close>

text \<open>
  One request to the backend: the key the client is built with (line 86) and the
  arguments of \<^verbatim>\<open>client.chat.complete\<close> (lines 113-126).
\<close>

record request =
  req_api_key :: "string option"
  req_model :: string
  req_system :: string
  req_user :: string
  req_max_tokens :: nat

text \<open>
  The backend is outside the program. It is a parameter: from its own state and a
  request it gives either the text \<^verbatim>\<open>str(e)\<close> of the exception the \<^verbatim>\<open>try\<close> block ends
  with (\<open>Inl\<close>) or the completion \<^verbatim>\<open>response.choices[0].message.content\<close> (\<open>Inr\<close>),
  and its new state.
\<close>

type_synonym 'b backend = "'b \<Rightarrow> request \<Rightarrow> (string + string) \<times> 'b"

text \<open>\<^verbatim>\<open>str(owner) if owner else "Unknown"\<close>, with the looked-up owner as a parameter.\<close>

definition owner_name_of :: "string option \<Rightarrow> string" where
  "owner_name_of owner = (case owner of Some s \<Rightarrow> s | None \<Rightarrow> ''Unknown'')"

text \<open>The f-string of lines 96-110, line by line.\<close>

definition system_prompt :: "string \<Rightarrow> string \<Rightarrow> string" where
  "system_prompt owner_name chat_context = join newline
     [''You are a Discord bot on a server and you adapt to the server slang.'',
      [],
      ''IMPORTANT RULES:'',
      [],
      ''- Learn from the users'' @ apostrophe @ '' chat style and adapt to it'',
      ''- Use similar expressions, emojis, and slang as the users'',
      ''- Don'' @ apostrophe @ ''t write too long messages (1-3 sentences are ideal)'',
      ''- Be authentic and natural'',
      ''- If asked about the bot owner: The owner is '' @ owner_name,
      [],
      ''CHAT CONTEXT (recent messages):'',
      chat_context,
      [],
      ''Analyze the writing style and respond in the same style.'']"

definition build_request ::
  "string option \<Rightarrow> string option \<Rightarrow> message_history \<Rightarrow> int \<Rightarrow> string \<Rightarrow> string \<Rightarrow> request" where
  "build_request api_key owner h channel_id user_message author_name =
     (let owner_name = owner_name_of owner;
          chat_context = get_channel_context h channel_id
      in \<lparr>req_api_key = api_key,
          req_model = ''mistral-large-latest'',
          req_system = system_prompt owner_name chat_context,
          req_user = author_name @ '' asks: '' @ user_message,
          req_max_tokens = 300\<rparr>)"

text \<open>The test of line 134 on \<^verbatim>\<open>str(e).lower()\<close>.\<close>

definition is_rate_limit_error :: "string \<Rightarrow> bool" where
  "is_rate_limit_error e =
     (let error_msg = lower e
      in str_in ''rate'' error_msg \<or> str_in ''limit'' error_msg \<or> str_in ''quota'' error_msg)"

definition no_key_msg :: string where
  "no_key_msg = cross_mark @ '' No API key configured! Use `/aiaddkey` to set one up.''"

definition error_msg_of :: "string \<Rightarrow> string" where
  "error_msg_of e = cross_mark @ '' Error generating AI response: '' @ e"

definition all_keys_exhausted_msg :: string where
  "all_keys_exhausted_msg =
     cross_mark @ '' All API keys have reached their limit. Please try again later.''"

text \<open>
  What a call works on: the guild's configuration and the backend's state, which the
  code changes, and two logs the code does not keep, added to state the properties:
  the requests sent to the backend, oldest first, and the number of calls of
  \<^verbatim>\<open>switch_to_next_key\<close> that returned \<^verbatim>\<open>True\<close>.
\<close>

record 'b run =
  conf :: guild_conf
  bstate :: 'b
  calls :: "request list"
  rotations :: nat

text \<open>
  One pass through the body of the \<^verbatim>\<open>while\<close> loop (lines 85-142) ends in a
  \<^verbatim>\<open>return\<close>, in an exception that leaves the function, or in \<^verbatim>\<open>continue\<close> with a new
  key.
\<close>

datatype 'b step = Return "py_error + string" "'b run" | Continue "string option" "'b run"

definition loop_body ::
  "'b backend \<Rightarrow> string option \<Rightarrow> message_history \<Rightarrow> int \<Rightarrow> string \<Rightarrow> string \<Rightarrow>
   string option \<Rightarrow> 'b run \<Rightarrow> 'b step" where
  "loop_body backend owner h channel_id user_message author_name api_key st =
     (let req = build_request api_key owner h channel_id user_message author_name;
          (res, b') = backend (bstate st) req;
          st1 = st\<lparr>bstate := b', calls := calls st @ [req]\<rparr>
      in case res of
           Inr content \<Rightarrow> Return (Inr content) st1
         | Inl e \<Rightarrow>
             if is_rate_limit_error e then
               (let (switched, g') = switch_to_next_key (conf st1);
                    st2 = st1\<lparr>conf := g'\<rparr>
                in if switched then
                     (case get_current_api_key g' of
                        (Inl ex, g'') \<Rightarrow> Return (Inl ex) (st2\<lparr>conf := g''\<rparr>)
                      | (Inr api_key', g'') \<Rightarrow>
                          Continue api_key' (st2\<lparr>conf := g'', rotations := Suc (rotations st2)\<rparr>))
                   else Return (Inr (error_msg_of e)) st2)
             else Return (Inr (error_msg_of e)) st1)"

function retry_loop ::
  "'b backend \<Rightarrow> string option \<Rightarrow> message_history \<Rightarrow> int \<Rightarrow> string \<Rightarrow> string \<Rightarrow>
   string list \<Rightarrow> string option \<Rightarrow> nat \<Rightarrow> 'b run \<Rightarrow> (py_error + string) \<times> 'b run" where
  "retry_loop backend owner h channel_id user_message author_name max_retries api_key retry_count st =
     (if retry_count < length max_retries then
        (case loop_body backend owner h channel_id user_message author_name api_key st of
           Return r st' \<Rightarrow> (r, st')
         | Continue api_key' st' \<Rightarrow>
             retry_loop backend owner h channel_id user_message author_name max_retries
               api_key' (retry_count + 1) st')
      else (Inr all_keys_exhausted_msg, st))"
  by pat_completeness auto
termination
  by (relation "measure (\<lambda>(backend, owner, h, channel_id, user_message, author_name,
        max_retries, api_key, retry_count, st). length max_retries - retry_count)") auto

declare retry_loop.simps [simp del]

text \<open>
  \<^verbatim>\<open>generate_response\<close>. \<^verbatim>\<open>not api_key\<close> holds for \<^verbatim>\<open>None\<close> and for the empty string.
  The call starts with empty logs.
\<close>

definition generate_response ::
  "'b backend \<Rightarrow> string option \<Rightarrow> message_history \<Rightarrow> guild_conf \<Rightarrow> 'b \<Rightarrow>
   int \<Rightarrow> string \<Rightarrow> string \<Rightarrow> (py_error + string) \<times> 'b run" where
  "generate_response backend owner h g b channel_id user_message author_name =
     (case get_current_api_key g of
        (Inl ex, g1) \<Rightarrow> (Inl ex, \<lparr>conf = g1, bstate = b, calls = [], rotations = 0\<rparr>)
      | (Inr api_key, g1) \<Rightarrow>
          let st = \<lparr>conf = g1, bstate = b, calls = [], rotations = 0\<rparr> in
          if api_key = None \<or> api_key = Some [] then (Inr no_key_msg, st)
          else
            let max_retries = api_keys (conf st)
            in retry_loop backend owner h channel_id user_message author_name
                 max_retries api_key 0 st)"

text \<open>
  A simulated backend, for concrete runs: the answer depends on the key of the request
  only, and the state counts the requests received.
\<close>

definition simulated_backend :: "(string option \<Rightarrow> string + string) \<Rightarrow> nat backend" where
  "simulated_backend answer n req = (answer (req_api_key req), Suc n)"

subsection \<open>Sequences of operations\<close>



text \<open>
  The operations that change a guild's pool, and a state of the pool as the spec's data
  model describes it: at most 8 keys, no key twice, the index in range (0 when the pool
  is empty).
\<close>

definition pool_ok :: "guild_conf \<Rightarrow> bool" where
  "pool_ok g \<longleftrightarrow>
     length (api_keys g) \<le> 8 \<and> distinct (api_keys g) \<and>
     0 \<le> current_key_index g \<and> current_key_index g < max 1 (int (length (api_keys g)))"

datatype pool_op = Add string | Remove int | Rotate | Current

fun apply_pool_op :: "guild_conf \<Rightarrow> pool_op \<Rightarrow> guild_conf" where
  "apply_pool_op g (Add k) = snd (add_api_key g k)"
| "apply_pool_op g (Remove p) = snd (remove_api_key g p)"
| "apply_pool_op g Rotate = snd (switch_to_next_key g)"
| "apply_pool_op g Current = snd (get_current_api_key g)"

text \<open>
  The key the pool's rotation reaches from index \<open>i\<close>: the index counts modulo the number
  of keys.
\<close>

definition key_at :: "string list \<Rightarrow> int \<Rightarrow> string option" where
  "key_at keys i = Some (keys ! nat (i mod int (length keys)))"

text \<open>Concrete backends and pools for the runs below.\<close>

definition rate_limited_backend :: "nat backend" where
  "rate_limited_backend = simulated_backend (\<lambda>k. Inl ''Rate limit exceeded'')"

definition third_key_backend :: "nat backend" where
  "third_key_backend =
     simulated_backend
       (\<lambda>k. if k = Some ''k3'' then Inr ''hi there'' else Inl ''Rate limit exceeded'')"

definition unauthorized_backend :: "nat backend" where
  "unauthorized_backend = simulated_backend (\<lambda>k. Inl ''401 Unauthorized'')"

definition one_key :: guild_conf where
  "one_key = \<lparr>freeroom_channel = None, api_keys = [''k1''], current_key_index = 0\<rparr>"

definition two_keys :: guild_conf where
  "two_keys = \<lparr>freeroom_channel = None, api_keys = [''k1'', ''k2''], current_key_index = 1\<rparr>"

definition three_keys :: guild_conf where
  "three_keys =
     \<lparr>freeroom_channel = None, api_keys = [''k1'', ''k2'', ''k3''], current_key_index = 0\<rparr>"

section \<open>Properties\<close>

subsection \<open>The classifier\<close>

lemma str_in_sublist: "str_in pat s = sublist pat s"
  by (induction s) (auto simp: sublist_Cons_right)

subsection \<open>The context buffer\<close>














subsection \<open>The credential pool\<close>

text \<open>
  C6: with a non-negative index, \<^verbatim>\<open>get_current_api_key\<close> gives \<^verbatim>\<open>None\<close> for an empty
  pool and changes nothing; the key at the index when the index is in range, and changes
  nothing; and otherwise the key at index 0, with the index stored as 0.
\<close>

theorem get_current_api_key_spec:
  assumes "0 \<le> current_key_index g"
  shows "get_current_api_key g =
     (if api_keys g = [] then (Inr None, g)
      else if current_key_index g < int (length (api_keys g))
      then (Inr (Some (api_keys g ! nat (current_key_index g))), g)
      else (Inr (Some (api_keys g ! 0)), g\<lparr>current_key_index := 0\<rparr>))"
  using assms
  by (auto simp: get_current_api_key_def get_api_keys_def py_getitem_def Let_def)

theorem get_current_api_key_spec_witness:
  "get_current_api_key \<lparr>freeroom_channel = None, api_keys = [''k1'', ''k2''], current_key_index = 5\<rparr>
     = (Inr (Some ''k1''),
        \<lparr>freeroom_channel = None, api_keys = [''k1'', ''k2''], current_key_index = 0\<rparr>) \<and>
   get_current_api_key \<lparr>freeroom_channel = None, api_keys = [''k1'', ''k2''], current_key_index = 1\<rparr>
     = (Inr (Some ''k2''),
        \<lparr>freeroom_channel = None, api_keys = [''k1'', ''k2''], current_key_index = 1\<rparr>) \<and>
   get_current_api_key \<lparr>freeroom_channel = None, api_keys = [], current_key_index = 0\<rparr>
     = (Inr None, \<lparr>freeroom_channel = None, api_keys = [], current_key_index = 0\<rparr>)"
  using get_current_api_key_spec
          [of "\<lparr>freeroom_channel = None, api_keys = [''k1'', ''k2''], current_key_index = 5\<rparr>"]
        get_current_api_key_spec
          [of "\<lparr>freeroom_channel = None, api_keys = [''k1'', ''k2''], current_key_index = 1\<rparr>"]
        get_current_api_key_spec
          [of "\<lparr>freeroom_channel = None, api_keys = [], current_key_index = 0\<rparr>"]
  by simp

lemma switch_to_next_key_many:
  "2 \<le> length (api_keys g) \<Longrightarrow>
   switch_to_next_key g =
     (True, g\<lparr>current_key_index := (current_key_index g + 1) mod int (length (api_keys g))\<rparr>)"
  by (simp add: switch_to_next_key_def get_api_keys_def Let_def)

lemma switch_to_next_key_few:
  "length (api_keys g) < 2 \<Longrightarrow> switch_to_next_key g = (False, g)"
  by (simp add: switch_to_next_key_def get_api_keys_def)

lemma mod_step: "((a + int n) mod k + 1) mod k = (a + int (Suc n)) mod (k::int)"
  by (simp add: mod_simps ac_simps)

lemma switch_iter:
  assumes "2 \<le> length (api_keys g)"
  shows "((\<lambda>g. snd (switch_to_next_key g)) ^^ Suc n) g =
     g\<lparr>current_key_index := (current_key_index g + int (Suc n)) mod int (length (api_keys g))\<rparr>"
proof (induction n)
  case 0
  from assms show ?case by (simp add: switch_to_next_key_many)
next
  case (Suc n)
  have "((\<lambda>g. snd (switch_to_next_key g)) ^^ Suc (Suc n)) g
          = snd (switch_to_next_key (((\<lambda>g. snd (switch_to_next_key g)) ^^ Suc n) g))"
    by simp
  also have "\<dots> = g\<lparr>current_key_index :=
      ((current_key_index g + int (Suc n)) mod int (length (api_keys g)) + 1)
         mod int (length (api_keys g))\<rparr>"
    using assms by (simp only: Suc) (simp add: switch_to_next_key_many)
  finally show ?case by (simp only: mod_step)
qed

text \<open>
  C7: with fewer than 2 keys \<^verbatim>\<open>switch_to_next_key\<close> returns \<^verbatim>\<open>False\<close> and changes
  nothing; with \<open>k \<ge> 2\<close> keys it returns \<^verbatim>\<open>True\<close> and stores the index
  \<open>(current_key_index + 1) mod k\<close>; from an index in range, \<open>k\<close> calls in a row give back
  the configuration they started from.
\<close>

theorem switch_to_next_key_spec:
  "(length (api_keys g) < 2 \<longrightarrow> switch_to_next_key g = (False, g)) \<and>
   (2 \<le> length (api_keys g) \<longrightarrow>
      switch_to_next_key g =
        (True, g\<lparr>current_key_index :=
                   (current_key_index g + 1) mod int (length (api_keys g))\<rparr>)) \<and>
   (2 \<le> length (api_keys g) \<and> 0 \<le> current_key_index g \<and>
    current_key_index g < int (length (api_keys g)) \<longrightarrow>
      ((\<lambda>g. snd (switch_to_next_key g)) ^^ length (api_keys g)) g = g)"
proof (intro conjI impI)
  assume "length (api_keys g) < 2"
  then show "switch_to_next_key g = (False, g)" by (rule switch_to_next_key_few)
next
  assume "2 \<le> length (api_keys g)"
  then show "switch_to_next_key g =
        (True, g\<lparr>current_key_index :=
                   (current_key_index g + 1) mod int (length (api_keys g))\<rparr>)"
    by (rule switch_to_next_key_many)
next
  assume a: "2 \<le> length (api_keys g) \<and> 0 \<le> current_key_index g \<and>
    current_key_index g < int (length (api_keys g))"
  then obtain m where m: "length (api_keys g) = Suc m"
    by (cases "length (api_keys g)") auto
  from a have "((\<lambda>g. snd (switch_to_next_key g)) ^^ Suc m) g =
     g\<lparr>current_key_index := (current_key_index g + int (Suc m)) mod int (length (api_keys g))\<rparr>"
    by (intro switch_iter) simp
  also have "(current_key_index g + int (Suc m)) mod int (length (api_keys g))
               = current_key_index g"
    using a by (simp add: m [symmetric])
  finally show "((\<lambda>g. snd (switch_to_next_key g)) ^^ length (api_keys g)) g = g"
    by (simp add: m)
qed

theorem switch_to_next_key_spec_witness:
  "switch_to_next_key \<lparr>freeroom_channel = None, api_keys = [''k1''], current_key_index = 0\<rparr>
     = (False, \<lparr>freeroom_channel = None, api_keys = [''k1''], current_key_index = 0\<rparr>) \<and>
   switch_to_next_key
       \<lparr>freeroom_channel = None, api_keys = [''k1'', ''k2''], current_key_index = 1\<rparr>
     = (True, \<lparr>freeroom_channel = None, api_keys = [''k1'', ''k2''], current_key_index = 0\<rparr>) \<and>
   ((\<lambda>g. snd (switch_to_next_key g)) ^^ 3)
       \<lparr>freeroom_channel = None, api_keys = [''k1'', ''k2'', ''k3''], current_key_index = 2\<rparr>
     = \<lparr>freeroom_channel = None, api_keys = [''k1'', ''k2'', ''k3''], current_key_index = 2\<rparr>"
proof -
  have one: "switch_to_next_key
       \<lparr>freeroom_channel = None, api_keys = [''k1''], current_key_index = 0\<rparr>
     = (False, \<lparr>freeroom_channel = None, api_keys = [''k1''], current_key_index = 0\<rparr>)"
    using switch_to_next_key_spec
            [of "\<lparr>freeroom_channel = None, api_keys = [''k1''], current_key_index = 0\<rparr>"]
    by simp
  have two: "switch_to_next_key
       \<lparr>freeroom_channel = None, api_keys = [''k1'', ''k2''], current_key_index = 1\<rparr>
     = (True, \<lparr>freeroom_channel = None, api_keys = [''k1'', ''k2''], current_key_index = 0\<rparr>)"
    using conjunct1 [OF conjunct2 [OF switch_to_next_key_spec
            [of "\<lparr>freeroom_channel = None, api_keys = [''k1'', ''k2''], current_key_index = 1\<rparr>"]]]
    by simp
  have three: "((\<lambda>g. snd (switch_to_next_key g)) ^^ 3)
       \<lparr>freeroom_channel = None, api_keys = [''k1'', ''k2'', ''k3''], current_key_index = 2\<rparr>
     = \<lparr>freeroom_channel = None, api_keys = [''k1'', ''k2'', ''k3''], current_key_index = 2\<rparr>"
    using conjunct2 [OF conjunct2 [OF switch_to_next_key_spec
            [of "\<lparr>freeroom_channel = None, api_keys = [''k1'', ''k2'', ''k3''],
                  current_key_index = 2\<rparr>"]]]
    by (simp add: numeral_3_eq_3)
  from one two three show ?thesis by blast
qed

lemma pool_ok_default: "pool_ok default_guild"
  by (simp add: pool_ok_def default_guild_def)

lemma pool_ok_add: "pool_ok g \<Longrightarrow> pool_ok (snd (add_api_key g k))"
  by (auto simp: pool_ok_def add_api_key_def get_api_keys_def Let_def)

lemma set_pop_at: "set (pop_at xs i) \<subseteq> set xs"
  by (auto simp: pop_at_def dest: in_set_takeD in_set_dropD)

lemma distinct_pop_at: "distinct xs \<Longrightarrow> distinct (pop_at xs i)"
proof (induction xs arbitrary: i)
  case Nil
  show ?case by (simp add: pop_at_def)
next
  case (Cons x xs)
  show ?case
  proof (cases i)
    case 0
    with Cons.prems show ?thesis by (simp add: pop_at_def)
  next
    case (Suc j)
    have "pop_at (x # xs) (Suc j) = x # pop_at xs j" by (simp add: pop_at_def)
    moreover have "x \<notin> set (pop_at xs j)" using Cons.prems set_pop_at [of xs j] by auto
    moreover have "distinct (pop_at xs j)" using Cons by simp
    ultimately show ?thesis using Suc by simp
  qed
qed

lemma length_pop_at: "i < length xs \<Longrightarrow> length (pop_at xs i) = length xs - 1"
  by (auto simp: pop_at_def)

lemma remove_api_key_invalid:
  "p < 1 \<or> int (length (api_keys g)) < p \<Longrightarrow>
   remove_api_key g p = (invalid_key_number_msg (length (api_keys g)), g)"
  by (auto simp: remove_api_key_def get_api_keys_def)

lemma remove_api_key_valid:
  assumes "1 \<le> p" "p \<le> int (length (api_keys g))"
  shows "snd (remove_api_key g p) =
     g\<lparr>api_keys := pop_at (api_keys g) (nat (p - 1)),
       current_key_index :=
         (if int (length (api_keys g)) - 1 \<le> current_key_index g \<and> 1 < length (api_keys g)
          then 0 else current_key_index g)\<rparr>"
proof -
  from assms have "nat (p - 1) < length (api_keys g)" by linarith
  then have len: "length (pop_at (api_keys g) (nat (p - 1))) = length (api_keys g) - 1"
    by (rule length_pop_at)
  have pos: "0 < length (api_keys g)" using assms by linarith
  from assms show ?thesis
    unfolding remove_api_key_def get_api_keys_def Let_def
    using pos by (simp add: len of_nat_diff) 
qed

lemma pool_ok_remove: "pool_ok g \<Longrightarrow> pool_ok (snd (remove_api_key g p))"
proof (cases "p < 1 \<or> int (length (api_keys g)) < p")
  case True
  assume "pool_ok g"
  with True show ?thesis by (simp add: remove_api_key_invalid)
next
  case False
  assume ok: "pool_ok g"
  from False have v: "1 \<le> p" "p \<le> int (length (api_keys g))" by auto
  then have lt: "nat (p - 1) < length (api_keys g)" by linarith
  show ?thesis
    using ok lt unfolding remove_api_key_valid [OF v] pool_ok_def
    by (auto simp: distinct_pop_at length_pop_at)
qed

lemma next_index_in_range:
  assumes "0 < n"
  shows "0 \<le> (i + 1) mod int n \<and> (i + 1) mod int n < int n"
proof -
  have "0 < int n" using assms by simp
  then show ?thesis by (simp only: pos_mod_sign pos_mod_bound simp_thms)
qed

lemma pool_ok_switch: "pool_ok g \<Longrightarrow> pool_ok (snd (switch_to_next_key g))"
proof (cases "2 \<le> length (api_keys g)")
  case True
  assume ok: "pool_ok g"
  from True have "0 < length (api_keys g)" by linarith
  from next_index_in_range [OF this, of "current_key_index g"] True ok
  show ?thesis by (simp add: switch_to_next_key_many pool_ok_def)
next
  case False
  assume "pool_ok g"
  with False show ?thesis by (simp add: switch_to_next_key_few)
qed

lemma pool_ok_current: "pool_ok g \<Longrightarrow> snd (get_current_api_key g) = g"
  by (auto simp: pool_ok_def get_current_api_key_def get_api_keys_def Let_def)

lemma pool_ok_op: "pool_ok g \<Longrightarrow> pool_ok (apply_pool_op g op)"
  by (cases op) (simp_all add: pool_ok_add pool_ok_remove pool_ok_switch pool_ok_current)

lemma pool_ok_ops: "pool_ok g \<Longrightarrow> pool_ok (foldl apply_pool_op g ops)"
  by (induction ops arbitrary: g) (simp_all add: pool_ok_op)


lemma add_api_key_keeps_keys_ok:
  "length (api_keys g) \<le> 8 \<and> distinct (api_keys g) \<Longrightarrow>
   length (api_keys (snd (add_api_key g k))) \<le> 8 \<and> distinct (api_keys (snd (add_api_key g k)))"
  by (auto simp: add_api_key_def get_api_keys_def Let_def)

lemma add_api_keys_keep_keys_ok:
  "length (api_keys g) \<le> 8 \<and> distinct (api_keys g) \<Longrightarrow>
   length (api_keys (foldl (\<lambda>g k. snd (add_api_key g k)) g ks)) \<le> 8 \<and>
   distinct (api_keys (foldl (\<lambda>g k. snd (add_api_key g k)) g ks))"
proof (induction ks arbitrary: g)
  case Nil
  then show ?case by simp
next
  case (Cons k ks)
  from Cons.prems have "length (api_keys (snd (add_api_key g k))) \<le> 8 \<and>
      distinct (api_keys (snd (add_api_key g k)))"
    by (rule add_api_key_keeps_keys_ok)
  then show ?case using Cons.IH by simp
qed

text \<open>
  C8: \<^verbatim>\<open>add_api_key\<close> answers "Maximum of 8 API keys reached!" and changes nothing when
  the pool holds 8 keys or more; otherwise answers "This API key is already added!" and
  changes nothing when the key is in the pool; otherwise appends the key at the end. From
  the default configuration, and from any pool of at most 8 distinct keys, every sequence
  of calls leaves at most 8 keys, all distinct.
\<close>

theorem add_api_key_spec:
  "(8 \<le> length (api_keys g) \<longrightarrow> add_api_key g k = (max_keys_msg, g)) \<and>
   (length (api_keys g) < 8 \<and> k \<in> set (api_keys g) \<longrightarrow>
      add_api_key g k = (duplicate_key_msg, g)) \<and>
   (length (api_keys g) < 8 \<and> k \<notin> set (api_keys g) \<longrightarrow>
      add_api_key g k =
        (key_added_msg (Suc (length (api_keys g))), g\<lparr>api_keys := api_keys g @ [k]\<rparr>)) \<and>
   (length (api_keys (foldl (\<lambda>g k. snd (add_api_key g k)) default_guild ks)) \<le> 8 \<and>
    distinct (api_keys (foldl (\<lambda>g k. snd (add_api_key g k)) default_guild ks))) \<and>
   (length (api_keys g) \<le> 8 \<and> distinct (api_keys g) \<longrightarrow>
      length (api_keys (foldl (\<lambda>g k. snd (add_api_key g k)) g ks)) \<le> 8 \<and>
      distinct (api_keys (foldl (\<lambda>g k. snd (add_api_key g k)) g ks)))"
proof (intro conjI impI)
  show "length (api_keys (foldl (\<lambda>g k. snd (add_api_key g k)) default_guild ks)) \<le> 8"
    and "distinct (api_keys (foldl (\<lambda>g k. snd (add_api_key g k)) default_guild ks))"
    using add_api_keys_keep_keys_ok [of default_guild ks] by (simp_all add: default_guild_def)
next
  assume a: "length (api_keys g) \<le> 8 \<and> distinct (api_keys g)"
  show "length (api_keys (foldl (\<lambda>g k. snd (add_api_key g k)) g ks)) \<le> 8"
    and "distinct (api_keys (foldl (\<lambda>g k. snd (add_api_key g k)) g ks))"
    using add_api_keys_keep_keys_ok [OF a, of ks] by simp_all
qed (simp_all add: add_api_key_def get_api_keys_def Let_def)

theorem add_api_key_spec_witness:
  "add_api_key \<lparr>freeroom_channel = None,
                api_keys = [''a'', ''b'', ''c'', ''d'', ''e'', ''f'', ''g'', ''h''],
                current_key_index = 0\<rparr> ''i''
     = (max_keys_msg,
        \<lparr>freeroom_channel = None,
          api_keys = [''a'', ''b'', ''c'', ''d'', ''e'', ''f'', ''g'', ''h''],
          current_key_index = 0\<rparr>) \<and>
   add_api_key \<lparr>freeroom_channel = None, api_keys = [''a'', ''b''], current_key_index = 0\<rparr> ''b''
     = (duplicate_key_msg,
        \<lparr>freeroom_channel = None, api_keys = [''a'', ''b''], current_key_index = 0\<rparr>) \<and>
   add_api_key \<lparr>freeroom_channel = None, api_keys = [''a'', ''b''], current_key_index = 0\<rparr> ''c''
     = (key_added_msg 3,
        \<lparr>freeroom_channel = None, api_keys = [''a'', ''b'', ''c''], current_key_index = 0\<rparr>) \<and>
   distinct (api_keys (foldl (\<lambda>g k. snd (add_api_key g k))
      \<lparr>freeroom_channel = None, api_keys = [''x''], current_key_index = 0\<rparr>
      [''y'', ''x'']))"
proof -
  have full: "add_api_key \<lparr>freeroom_channel = None,
                api_keys = [''a'', ''b'', ''c'', ''d'', ''e'', ''f'', ''g'', ''h''],
                current_key_index = 0\<rparr> ''i''
     = (max_keys_msg,
        \<lparr>freeroom_channel = None,
          api_keys = [''a'', ''b'', ''c'', ''d'', ''e'', ''f'', ''g'', ''h''],
          current_key_index = 0\<rparr>)"
    using conjunct1 [OF add_api_key_spec
          [of "\<lparr>freeroom_channel = None,
                api_keys = [''a'', ''b'', ''c'', ''d'', ''e'', ''f'', ''g'', ''h''],
                current_key_index = 0\<rparr>" "''i''" "[]"]]
    by simp
  have dup: "add_api_key
       \<lparr>freeroom_channel = None, api_keys = [''a'', ''b''], current_key_index = 0\<rparr> ''b''
     = (duplicate_key_msg,
        \<lparr>freeroom_channel = None, api_keys = [''a'', ''b''], current_key_index = 0\<rparr>)"
    using conjunct1 [OF conjunct2 [OF add_api_key_spec
          [of "\<lparr>freeroom_channel = None, api_keys = [''a'', ''b''], current_key_index = 0\<rparr>"
              "''b''" "[]"]]]
    by simp
  have new: "add_api_key
       \<lparr>freeroom_channel = None, api_keys = [''a'', ''b''], current_key_index = 0\<rparr> ''c''
     = (key_added_msg 3,
        \<lparr>freeroom_channel = None, api_keys = [''a'', ''b'', ''c''], current_key_index = 0\<rparr>)"
    using conjunct1 [OF conjunct2 [OF conjunct2 [OF add_api_key_spec
          [of "\<lparr>freeroom_channel = None, api_keys = [''a'', ''b''], current_key_index = 0\<rparr>"
              "''c''" "[]"]]]]
    by (simp add: numeral_3_eq_3)
  have many: "distinct (api_keys (foldl (\<lambda>g k. snd (add_api_key g k))
      \<lparr>freeroom_channel = None, api_keys = [''x''], current_key_index = 0\<rparr>
      [''y'', ''x'']))"
    using conjunct2 [OF conjunct2 [OF conjunct2 [OF conjunct2 [OF add_api_key_spec
          [of "\<lparr>freeroom_channel = None, api_keys = [''x''], current_key_index = 0\<rparr>"
              "''y''" "[''y'', ''x'']"]]]]]
    by simp
  from full dup new many show ?thesis by blast
qed

text \<open>
  C9: \<^verbatim>\<open>remove_api_key\<close> answers "Invalid key number!" and changes nothing for a number
  below 1 or above the number of keys; otherwise it removes the key at that 1-based
  position. If keys remain and the index is not below their number, the index becomes 0,
  and otherwise it stays: so when keys remain, the index is below their number.
\<close>

theorem remove_api_key_spec:
  "((p < 1 \<or> int (length (api_keys g)) < p) \<longrightarrow>
      remove_api_key g p = (invalid_key_number_msg (length (api_keys g)), g)) \<and>
   (1 \<le> p \<and> p \<le> int (length (api_keys g)) \<longrightarrow>
      (let g' = snd (remove_api_key g p) in
       api_keys g' = take (nat p - 1) (api_keys g) @ drop (nat p) (api_keys g) \<and>
       length (api_keys g') = length (api_keys g) - 1 \<and>
       freeroom_channel g' = freeroom_channel g \<and>
       current_key_index g' =
         (if api_keys g' \<noteq> [] \<and> int (length (api_keys g')) \<le> current_key_index g
          then 0 else current_key_index g) \<and>
       (api_keys g' \<noteq> [] \<longrightarrow> current_key_index g' < int (length (api_keys g'))) \<and>
       (0 \<le> current_key_index g \<longrightarrow> 0 \<le> current_key_index g')))"
proof (intro conjI impI)
  assume "p < 1 \<or> int (length (api_keys g)) < p"
  then show "remove_api_key g p = (invalid_key_number_msg (length (api_keys g)), g)"
    by (rule remove_api_key_invalid)
next
  assume a: "1 \<le> p \<and> p \<le> int (length (api_keys g))"
  then have v: "1 \<le> p" "p \<le> int (length (api_keys g))" by auto
  then have lt: "nat (p - 1) < length (api_keys g)" by linarith
  have len: "length (pop_at (api_keys g) (nat (p - 1))) = length (api_keys g) - 1"
    using lt by (rule length_pop_at)
  have idx: "nat (p - 1) = nat p - 1" "Suc (nat p - 1) = nat p" using v by linarith+
  have pop: "pop_at (api_keys g) (nat (p - 1)) = take (nat p - 1) (api_keys g) @ drop (nat p) (api_keys g)"
    using idx by (simp add: pop_at_def)
  have ne: "pop_at (api_keys g) (nat (p - 1)) \<noteq> [] \<longleftrightarrow> 1 < length (api_keys g)"
    using len by (metis One_nat_def length_greater_0_conv zero_less_diff)
  show "let g' = snd (remove_api_key g p) in
       api_keys g' = take (nat p - 1) (api_keys g) @ drop (nat p) (api_keys g) \<and>
       length (api_keys g') = length (api_keys g) - 1 \<and>
       freeroom_channel g' = freeroom_channel g \<and>
       current_key_index g' =
         (if api_keys g' \<noteq> [] \<and> int (length (api_keys g')) \<le> current_key_index g
          then 0 else current_key_index g) \<and>
       (api_keys g' \<noteq> [] \<longrightarrow> current_key_index g' < int (length (api_keys g'))) \<and>
       (0 \<le> current_key_index g \<longrightarrow> 0 \<le> current_key_index g')"
    unfolding Let_def remove_api_key_valid [OF v]
    using lt by (simp add: ne len) (auto simp: pop of_nat_diff)
qed


theorem remove_api_key_spec_witness:
  "remove_api_key
       \<lparr>freeroom_channel = None, api_keys = [''a'', ''b'', ''c''], current_key_index = 2\<rparr> 4
     = (invalid_key_number_msg 3,
        \<lparr>freeroom_channel = None, api_keys = [''a'', ''b'', ''c''], current_key_index = 2\<rparr>) \<and>
   api_keys (snd (remove_api_key
       \<lparr>freeroom_channel = None, api_keys = [''a'', ''b'', ''c''], current_key_index = 2\<rparr> 3))
     = [''a'', ''b''] \<and>
   current_key_index (snd (remove_api_key
       \<lparr>freeroom_channel = None, api_keys = [''a'', ''b'', ''c''], current_key_index = 2\<rparr> 3))
     = 0"
proof -
  have bad: "remove_api_key
       \<lparr>freeroom_channel = None, api_keys = [''a'', ''b'', ''c''], current_key_index = 2\<rparr> 4
     = (invalid_key_number_msg 3,
        \<lparr>freeroom_channel = None, api_keys = [''a'', ''b'', ''c''], current_key_index = 2\<rparr>)"
    using conjunct1 [OF remove_api_key_spec
          [of 4 "\<lparr>freeroom_channel = None, api_keys = [''a'', ''b'', ''c''],
                  current_key_index = 2\<rparr>"]]
    by (simp add: numeral_3_eq_3)
  have good: "api_keys (snd (remove_api_key
       \<lparr>freeroom_channel = None, api_keys = [''a'', ''b'', ''c''], current_key_index = 2\<rparr> 3))
     = [''a'', ''b''] \<and>
   current_key_index (snd (remove_api_key
       \<lparr>freeroom_channel = None, api_keys = [''a'', ''b'', ''c''], current_key_index = 2\<rparr> 3))
     = 0"
    using conjunct2 [OF remove_api_key_spec
          [of 3 "\<lparr>freeroom_channel = None, api_keys = [''a'', ''b'', ''c''],
                  current_key_index = 2\<rparr>"]]
    by (simp add: Let_def)
  from bad good show ?thesis by blast
qed

subsection \<open>The response engine\<close>

text \<open>
  C4: with an empty pool \<^verbatim>\<open>generate_response\<close> returns the message "No API key
  configured! ..." and leaves the configuration and the backend as they were: no request
  is sent and no rotation happens.
\<close>

theorem generate_response_no_keys:
  assumes "api_keys g = []"
  shows "generate_response backend owner h g b cid um an
           = (Inr no_key_msg, \<lparr>conf = g, bstate = b, calls = [], rotations = 0\<rparr>)"
  using assms by (simp add: generate_response_def get_current_api_key_def get_api_keys_def)


theorem generate_response_no_keys_witness:
  "generate_response (simulated_backend (\<lambda>k. Inr ''ok'')) None init_history default_guild 0
       7 ''hello'' ''al''
     = (Inr no_key_msg, \<lparr>conf = default_guild, bstate = 0, calls = [], rotations = 0\<rparr>)"
  using generate_response_no_keys
          [of default_guild "simulated_backend (\<lambda>k. Inr ''ok'')" None init_history 0 7
              "''hello''" "''al''"]
  by (simp add: default_guild_def)


lemma req_api_key_build_request [simp]:
  "req_api_key (build_request api_key owner h cid um an) = api_key"
  by (simp add: build_request_def Let_def)

lemma get_current_api_key_in_range:
  "0 \<le> current_key_index g \<Longrightarrow> current_key_index g < int (length (api_keys g)) \<Longrightarrow>
   get_current_api_key g = (Inr (Some (api_keys g ! nat (current_key_index g))), g)"
  by (auto simp: get_current_api_key_def get_api_keys_def py_getitem_def Let_def)

lemma loop_body_success:
  assumes "backend (bstate st) (build_request api_key owner h cid um an) = (Inr content, b')"
  shows "loop_body backend owner h cid um an api_key st =
     Return (Inr content)
       (st\<lparr>bstate := b', calls := calls st @ [build_request api_key owner h cid um an]\<rparr>)"
  using assms by (simp add: loop_body_def Let_def)

lemma loop_body_fatal:
  assumes "backend (bstate st) (build_request api_key owner h cid um an) = (Inl e, b')"
    and "\<not> is_rate_limit_error e \<or> \<not> fst (switch_to_next_key (conf st))"
  shows "loop_body backend owner h cid um an api_key st =
     Return (Inr (error_msg_of e))
       (st\<lparr>bstate := b', calls := calls st @ [build_request api_key owner h cid um an]\<rparr>)"
proof (cases "is_rate_limit_error e")
  case False
  with assms(1) show ?thesis by (simp add: loop_body_def Let_def)
next
  case True
  with assms(2) have "switch_to_next_key (conf st) = (False, conf st)"
    by (auto simp: switch_to_next_key_def Let_def split: if_splits)
  with True assms(1) show ?thesis by (simp add: loop_body_def Let_def)
qed

lemma loop_body_retry:
  assumes "backend (bstate st) (build_request api_key owner h cid um an) = (Inl e, b')"
    and "is_rate_limit_error e"
    and "2 \<le> length (api_keys (conf st))"
  shows "loop_body backend owner h cid um an api_key st =
     Continue
       (Some (api_keys (conf st) !
          nat ((current_key_index (conf st) + 1) mod int (length (api_keys (conf st))))))
       (st\<lparr>bstate := b', calls := calls st @ [build_request api_key owner h cid um an],
            conf := (conf st)\<lparr>current_key_index :=
              (current_key_index (conf st) + 1) mod int (length (api_keys (conf st)))\<rparr>,
            rotations := Suc (rotations st)\<rparr>)"
proof -
  let ?n = "length (api_keys (conf st))"
  let ?i = "(current_key_index (conf st) + 1) mod int ?n"
  let ?g = "(conf st)\<lparr>current_key_index := ?i\<rparr>"
  from assms(3) have sw: "switch_to_next_key (conf st) = (True, ?g)"
    by (rule switch_to_next_key_many)
  from assms(3) have "0 < ?n" by linarith
  from next_index_in_range [OF this, of "current_key_index (conf st)"]
  have "get_current_api_key ?g = (Inr (Some (api_keys ?g ! nat (current_key_index ?g))), ?g)"
    by (intro get_current_api_key_in_range) simp_all
  then have cur: "get_current_api_key ?g = (Inr (Some (api_keys (conf st) ! nat ?i)), ?g)"
    by simp
  show ?thesis
    using assms(1,2) by (simp add: loop_body_def Let_def sw cur)
qed

text \<open>What one pass of the loop can do, for any backend.\<close>

lemma loop_body_cases:
  obtains (return) r st' where
      "loop_body backend owner h cid um an api_key st = Return r st'"
      "calls st' = calls st @ [build_request api_key owner h cid um an]"
      "rotations st' = rotations st"
      "conf st' = conf st"
  | (continue) st' where
      "2 \<le> length (api_keys (conf st))"
      "loop_body backend owner h cid um an api_key st =
         Continue (Some (api_keys (conf st) !
            nat ((current_key_index (conf st) + 1) mod int (length (api_keys (conf st)))))) st'"
      "calls st' = calls st @ [build_request api_key owner h cid um an]"
      "rotations st' = Suc (rotations st)"
      "conf st' = (conf st)\<lparr>current_key_index :=
              (current_key_index (conf st) + 1) mod int (length (api_keys (conf st)))\<rparr>"
proof -
  obtain res b' where b: "backend (bstate st) (build_request api_key owner h cid um an) = (res, b')"
    by (cases "backend (bstate st) (build_request api_key owner h cid um an)") auto
  show ?thesis
  proof (cases res)
    case (Inr content)
    with b have "loop_body backend owner h cid um an api_key st =
       Return (Inr content)
         (st\<lparr>bstate := b', calls := calls st @ [build_request api_key owner h cid um an]\<rparr>)"
      by (intro loop_body_success [where backend = backend and st = st]) simp
    then show ?thesis by (rule return) simp_all
  next
    case (Inl e)
    show ?thesis
    proof (cases "is_rate_limit_error e \<and> 2 \<le> length (api_keys (conf st))")
      case True
      then have many: "2 \<le> length (api_keys (conf st))" and rate: "is_rate_limit_error e"
        by simp_all
      from b Inl have "backend (bstate st) (build_request api_key owner h cid um an) = (Inl e, b')"
        by simp
      from loop_body_retry [where backend = backend and st = st, OF this rate many]
      show ?thesis by (rule continue [OF many]) simp_all
    next
      case False
      then have no: "\<not> is_rate_limit_error e \<or> \<not> fst (switch_to_next_key (conf st))"
        by (auto simp: switch_to_next_key_few)
      from b Inl have "backend (bstate st) (build_request api_key owner h cid um an) = (Inl e, b')"
        by simp
      from loop_body_fatal [where backend = backend and st = st, OF this no]
      show ?thesis by (rule return) simp_all
    qed
  qed
qed


lemma key_at_next: "key_at keys ((i + 1) mod int (length keys) + j) = key_at keys (i + (1 + j))"
  by (simp add: key_at_def mod_simps ac_simps)

lemma key_at_in_range:
  "0 \<le> i \<Longrightarrow> i < int (length keys) \<Longrightarrow> key_at keys i = Some (keys ! nat i)"
  by (simp add: key_at_def)

lemma key_at_mem:
  assumes "keys \<noteq> []"
  obtains k where "key_at keys i = Some k" "k \<in> set keys"
proof -
  from assms have "0 < int (length keys)" by simp
  then have "0 \<le> i mod int (length keys)" "i mod int (length keys) < int (length keys)"
    by (simp_all only: pos_mod_sign pos_mod_bound)
  then have "nat (i mod int (length keys)) < length keys" by linarith
  then have "keys ! nat (i mod int (length keys)) \<in> set keys" by (rule nth_mem)
  then show ?thesis by (intro that [of "keys ! nat (i mod int (length keys))"]) (simp_all add: key_at_def)
qed

lemma key_seq_Suc:
  "map (\<lambda>j. key_at keys (i + int j)) [0..<Suc m] =
     key_at keys i # map (\<lambda>j. key_at keys (i + (1 + int j))) [0..<m]"
proof -
  have "[0..<Suc m] = 0 # map Suc [0..<m]"
    by (simp only: map_Suc_upt upt_conv_Cons [of 0 "Suc m"] zero_less_Suc)
  then show ?thesis by (simp only: list.map map_map comp_def) (simp add: ac_simps)
qed

lemma retry_loop_done:
  "\<not> rc < length keys \<Longrightarrow>
   retry_loop backend owner h cid um an keys api_key rc st = (Inr all_keys_exhausted_msg, st)"
  by (subst retry_loop.simps) simp

lemma retry_loop_return:
  "rc < length keys \<Longrightarrow> loop_body backend owner h cid um an api_key st = Return r st' \<Longrightarrow>
   retry_loop backend owner h cid um an keys api_key rc st = (r, st')"
  by (subst retry_loop.simps) simp

lemma retry_loop_continue:
  "rc < length keys \<Longrightarrow> loop_body backend owner h cid um an api_key st = Continue k' st' \<Longrightarrow>
   retry_loop backend owner h cid um an keys api_key rc st =
     retry_loop backend owner h cid um an keys k' (Suc rc) st'"
  by (subst retry_loop.simps) simp

lemma retry_loop_trace:
  assumes "api_keys (conf st) = keys" and "keys \<noteq> []"
    and "api_key = key_at keys (current_key_index (conf st))"
  shows "\<exists>m \<le> length keys - rc.
      map req_api_key (calls (snd (retry_loop backend owner h cid um an keys api_key rc st))) =
        map req_api_key (calls st) @
        map (\<lambda>j. key_at keys (current_key_index (conf st) + int j)) [0..<m]"
  using assms
proof (induction "length keys - rc" arbitrary: rc st api_key)
  case 0
  then have "\<not> rc < length keys" by simp
  then show ?case by (simp add: retry_loop_done)
next
  case (Suc d)
  then have lt: "rc < length keys" by simp
  let ?i = "current_key_index (conf st)"
  show ?case
  proof (cases rule: loop_body_cases [of backend owner h cid um an api_key st])
    case (return r0 st0)
    have "map req_api_key (calls st0) =
        map req_api_key (calls st) @ map (\<lambda>j. key_at keys (?i + int j)) [0..<1]"
      using return(2) Suc.prems(3) by simp
    moreover have "1 \<le> length keys - rc" using lt by simp
    ultimately show ?thesis
      unfolding retry_loop_return [OF lt return(1)] snd_conv by blast
  next
    case (continue st2)
    let ?i2 = "(?i + 1) mod int (length keys)"
    have c2: "conf st2 = (conf st)\<lparr>current_key_index := ?i2\<rparr>"
      using continue(5) Suc.prems(1) by simp
    have k2: "Some (api_keys (conf st) ! nat ?i2) = key_at keys (current_key_index (conf st2))"
      using Suc.prems(1) by (simp add: c2 key_at_def)
    have "\<exists>m \<le> length keys - Suc rc.
      map req_api_key (calls (snd (retry_loop backend owner h cid um an keys
          (Some (api_keys (conf st) ! nat ?i2)) (Suc rc) st2))) =
        map req_api_key (calls st2) @
        map (\<lambda>j. key_at keys (current_key_index (conf st2) + int j)) [0..<m]"
    proof (rule Suc.hyps(1))
      show "d = length keys - Suc rc" using Suc.hyps(2) by simp
      show "api_keys (conf st2) = keys" using Suc.prems(1) by (simp add: c2)
      show "keys \<noteq> []" by (rule Suc.prems(2))
      show "Some (api_keys (conf st) ! nat ?i2) = key_at keys (current_key_index (conf st2))"
        by (rule k2)
    qed
    then obtain m where m: "m \<le> length keys - Suc rc"
      and tr: "map req_api_key (calls (snd (retry_loop backend owner h cid um an keys
          (Some (api_keys (conf st) ! nat ?i2)) (Suc rc) st2))) =
        map req_api_key (calls st2) @
        map (\<lambda>j. key_at keys (current_key_index (conf st2) + int j)) [0..<m]"
      by blast
    have step: "retry_loop backend owner h cid um an keys api_key rc st =
        retry_loop backend owner h cid um an keys (Some (api_keys (conf st) ! nat ?i2)) (Suc rc) st2"
      using continue(2) Suc.prems(1) by (intro retry_loop_continue [OF lt]) simp
    have "map req_api_key (calls (snd (retry_loop backend owner h cid um an keys api_key rc st))) =
        map req_api_key (calls st) @ map (\<lambda>j. key_at keys (?i + int j)) [0..<Suc m]"
      unfolding step tr key_seq_Suc
      using continue(3) Suc.prems(3) by (simp add: c2 key_at_next)
    moreover have "Suc m \<le> length keys - rc" using m lt by simp
    ultimately show ?thesis by blast
  qed
qed


lemma retry_loop_rotations:
  "rotations (snd (retry_loop backend owner h cid um an keys api_key rc st))
     \<le> rotations st + (length keys - rc) \<and>
   (rc \<le> length keys \<and>
    rotations (snd (retry_loop backend owner h cid um an keys api_key rc st))
      = rotations st + (length keys - rc) \<longrightarrow>
    fst (retry_loop backend owner h cid um an keys api_key rc st) = Inr all_keys_exhausted_msg)"
proof (induction "length keys - rc" arbitrary: rc st api_key)
  case 0
  then have "\<not> rc < length keys" by simp
  then show ?case by (simp add: retry_loop_done)
next
  case (Suc d)
  then have lt: "rc < length keys" by simp
  show ?case
  proof (cases rule: loop_body_cases [of backend owner h cid um an api_key st])
    case (return r0 st0)
    have "rotations st0 \<le> rotations st + (length keys - rc)" using return(3) by simp
    moreover have "rotations st0 \<noteq> rotations st + (length keys - rc)"
      using return(3) lt by arith
    ultimately show ?thesis
      unfolding retry_loop_return [OF lt return(1)] by simp
  next
    case (continue st2)
    have d: "d = length keys - Suc rc" using Suc.hyps(2) by simp
    define R where "R = retry_loop backend owner h cid um an keys
        (Some (api_keys (conf st) !
           nat ((current_key_index (conf st) + 1) mod int (length (api_keys (conf st))))))
        (Suc rc) st2"
    have ih: "rotations (snd R) \<le> rotations st2 + (length keys - Suc rc) \<and>
        (Suc rc \<le> length keys \<and> rotations (snd R) = rotations st2 + (length keys - Suc rc)
           \<longrightarrow> fst R = Inr all_keys_exhausted_msg)"
      unfolding R_def by (rule Suc.hyps(1) [OF d])
    have eq: "rotations st2 + (length keys - Suc rc) = rotations st + (length keys - rc)"
      using continue(4) lt by arith
    have "rotations (snd R) \<le> rotations st + (length keys - rc) \<and>
        (rc \<le> length keys \<and> rotations (snd R) = rotations st + (length keys - rc)
           \<longrightarrow> fst R = Inr all_keys_exhausted_msg)"
      using ih lt unfolding eq by simp
    then show ?thesis
      unfolding retry_loop_continue [OF lt continue(2)] R_def .
  qed
qed

lemma mod_shift_inj:
  assumes "j1 < n" "j2 < n" "(i + int j1) mod int n = (i + int j2) mod int n"
  shows "j1 = j2"
proof -
  from assms(3) have "int n dvd (i + int j1) - (i + int j2)" by (simp only: mod_eq_dvd_iff)
  then have dv: "int n dvd int j1 - int j2" by simp
  have "\<bar>int j1 - int j2\<bar> < int n" using assms(1,2) by linarith
  with dv have "int j1 - int j2 = 0" by (metis dvd_imp_le_int abs_of_nat not_less)
  then show ?thesis by simp
qed

lemma distinct_key_seq:
  assumes "distinct keys" "m \<le> length keys"
  shows "distinct (map (\<lambda>j. key_at keys (i + int j)) [0..<m])"
proof -
  have "inj_on (\<lambda>j. key_at keys (i + int j)) (set [0..<m])"
  proof (rule inj_onI)
    fix j1 j2
    assume j: "j1 \<in> set [0..<m]" "j2 \<in> set [0..<m]"
      and eq: "key_at keys (i + int j1) = key_at keys (i + int j2)"
    from j assms(2) have lt: "j1 < length keys" "j2 < length keys" by simp_all
    then have pos: "0 < int (length keys)" by linarith
    have r1: "nat ((i + int j1) mod int (length keys)) < length keys"
      using pos_mod_sign [OF pos, of "i + int j1"] pos_mod_bound [OF pos, of "i + int j1"]
      by linarith
    have r2: "nat ((i + int j2) mod int (length keys)) < length keys"
      using pos_mod_sign [OF pos, of "i + int j2"] pos_mod_bound [OF pos, of "i + int j2"]
      by linarith
    from eq have "keys ! nat ((i + int j1) mod int (length keys))
        = keys ! nat ((i + int j2) mod int (length keys))"
      by (simp add: key_at_def)
    with assms(1) r1 r2 have "nat ((i + int j1) mod int (length keys))
        = nat ((i + int j2) mod int (length keys))"
      by (simp add: nth_eq_iff_index_eq)
    then have "(i + int j1) mod int (length keys) = (i + int j2) mod int (length keys)"
      using pos_mod_sign [OF pos, of "i + int j1"] pos_mod_sign [OF pos, of "i + int j2"]
      by linarith
    with lt show "j1 = j2" by (rule mod_shift_inj)
  qed
  then show ?thesis by (simp add: distinct_map)
qed


lemma get_current_api_key_cases:
  assumes "api_keys g \<noteq> []"
  obtains (raise) "get_current_api_key g = (Inl IndexError, g)"
  | (key) g1 where
      "get_current_api_key g = (Inr (key_at (api_keys g) (current_key_index g1)), g1)"
      "api_keys g1 = api_keys g"
proof (cases "current_key_index g < - int (length (api_keys g))")
  case True
  with assms have "get_current_api_key g = (Inl IndexError, g)"
    by (simp add: get_current_api_key_def get_api_keys_def py_getitem_def)
  then show ?thesis by (rule raise)
next
  case False
  let ?n = "int (length (api_keys g))"
  from assms have pos: "0 < ?n" by simp
  consider (high) "?n \<le> current_key_index g"
    | (mid) "0 \<le> current_key_index g" "current_key_index g < ?n"
    | (low) "- ?n \<le> current_key_index g" "current_key_index g < 0"
    using False by linarith
  then show ?thesis
  proof cases
    case high
    with assms have "get_current_api_key g =
        (Inr (key_at (api_keys g) (current_key_index (g\<lparr>current_key_index := 0\<rparr>))),
         g\<lparr>current_key_index := 0\<rparr>)"
      by (simp add: get_current_api_key_def get_api_keys_def py_getitem_def key_at_def Let_def)
    then show ?thesis by (rule key) simp
  next
    case mid
    with assms have "get_current_api_key g = (Inr (key_at (api_keys g) (current_key_index g)), g)"
      by (simp add: get_current_api_key_def get_api_keys_def py_getitem_def key_at_def Let_def)
    then show ?thesis by (rule key) simp
  next
    case low
    then have "0 \<le> ?n + current_key_index g" and "?n + current_key_index g < ?n"
      by linarith+
    then have "(?n + current_key_index g) mod ?n = ?n + current_key_index g"
      by (rule mod_pos_pos_trivial)
    then have "current_key_index g mod ?n = ?n + current_key_index g"
      by (simp only: mod_add_self1)
    with low assms have "get_current_api_key g = (Inr (key_at (api_keys g) (current_key_index g)), g)"
      by (simp add: get_current_api_key_def get_api_keys_def py_getitem_def key_at_def Let_def)
    then show ?thesis by (rule key) simp
  qed
qed


lemma generate_response_loop:
  assumes "get_current_api_key g = (Inr (Some k), g1)" and "k \<noteq> []"
  shows "generate_response backend owner h g b cid um an =
     retry_loop backend owner h cid um an (api_keys g1) (Some k) 0
       \<lparr>conf = g1, bstate = b, calls = [], rotations = 0\<rparr>"
  using assms by (simp add: generate_response_def Let_def)

lemma generate_response_no_loop:
  assumes "get_current_api_key g = (x, g1)" and "\<forall>k. x = Inr (Some k) \<longrightarrow> k = []"
  shows "calls (snd (generate_response backend owner h g b cid um an)) = []"
    and "rotations (snd (generate_response backend owner h g b cid um an)) = 0"
  using assms by (auto simp: generate_response_def Let_def split: sum.splits option.splits)

lemma retry_loop_all_rate_limited:
  assumes many: "2 \<le> length keys" and keys: "api_keys (conf st) = keys"
    and key: "api_key = key_at keys (current_key_index (conf st))"
    and rc: "rc \<le> length keys"
    and fail: "\<And>b k. k \<in> set keys \<Longrightarrow>
       \<exists>e b'. backend b (build_request (Some k) owner h cid um an) = (Inl e, b') \<and>
              is_rate_limit_error e"
  shows "\<exists>st'. retry_loop backend owner h cid um an keys api_key rc st
                  = (Inr all_keys_exhausted_msg, st') \<and>
      rotations st' = rotations st + (length keys - rc) \<and>
      length (calls st') = length (calls st) + (length keys - rc) \<and>
      conf st' = (if rc = length keys then conf st
                  else (conf st)\<lparr>current_key_index :=
                    (current_key_index (conf st) + int (length keys - rc)) mod int (length keys)\<rparr>)"
  using keys key rc
proof (induction "length keys - rc" arbitrary: rc st api_key)
  case 0
  then have "\<not> rc < length keys" "rc = length keys" by simp_all
  then show ?case by (simp add: retry_loop_done)
next
  case (Suc d)
  then have lt: "rc < length keys" by simp
  from many have ne: "keys \<noteq> []" by auto
  let ?i = "current_key_index (conf st)"
  let ?i2 = "(?i + 1) mod int (length keys)"
  obtain k where k: "key_at keys ?i = Some k" "k \<in> set keys"
    using ne by (rule key_at_mem)
  from fail [OF k(2), of "bstate st"] obtain e b'
    where e: "backend (bstate st) (build_request (Some k) owner h cid um an) = (Inl e, b')"
      and rate: "is_rate_limit_error e"
    by blast
  define st2 where "st2 = st\<lparr>bstate := b',
      calls := calls st @ [build_request api_key owner h cid um an],
      conf := (conf st)\<lparr>current_key_index := ?i2\<rparr>,
      rotations := Suc (rotations st)\<rparr>"
  have body: "loop_body backend owner h cid um an api_key st = Continue (Some (keys ! nat ?i2)) st2"
    using loop_body_retry [where backend = backend and st = st and api_key = api_key
        and owner = owner and h = h and cid = cid and um = um and an = an, OF _ rate]
      e many Suc.prems(1,2) k(1)
    by (simp add: st2_def)
  have step: "retry_loop backend owner h cid um an keys api_key rc st =
      retry_loop backend owner h cid um an keys (Some (keys ! nat ?i2)) (Suc rc) st2"
    using lt body by (rule retry_loop_continue)
  have i2: "0 \<le> ?i2" "?i2 < int (length keys)"
    using ne by (simp_all add: pos_mod_sign pos_mod_bound)
  have "\<exists>st'. retry_loop backend owner h cid um an keys (Some (keys ! nat ?i2)) (Suc rc) st2
                  = (Inr all_keys_exhausted_msg, st') \<and>
      rotations st' = rotations st2 + (length keys - Suc rc) \<and>
      length (calls st') = length (calls st2) + (length keys - Suc rc) \<and>
      conf st' = (if Suc rc = length keys then conf st2
                  else (conf st2)\<lparr>current_key_index :=
                    (current_key_index (conf st2) + int (length keys - Suc rc))
                       mod int (length keys)\<rparr>)"
  proof (rule Suc.hyps(1))
    show "d = length keys - Suc rc" using Suc.hyps(2) by simp
    show "api_keys (conf st2) = keys" using Suc.prems(1) by (simp add: st2_def)
    show "Some (keys ! nat ?i2) = key_at keys (current_key_index (conf st2))"
      using i2 by (simp add: st2_def key_at_in_range)
    show "Suc rc \<le> length keys" using lt by simp
  qed
  then obtain st' where
    res: "retry_loop backend owner h cid um an keys (Some (keys ! nat ?i2)) (Suc rc) st2
                  = (Inr all_keys_exhausted_msg, st')"
    and rot: "rotations st' = rotations st2 + (length keys - Suc rc)"
    and len: "length (calls st') = length (calls st2) + (length keys - Suc rc)"
    and cf: "conf st' = (if Suc rc = length keys then conf st2
                  else (conf st2)\<lparr>current_key_index :=
                    (current_key_index (conf st2) + int (length keys - Suc rc))
                       mod int (length keys)\<rparr>)"
    by blast
  have rot': "rotations st' = rotations st + (length keys - rc)"
    using rot lt by (simp add: st2_def)
  have len': "length (calls st') = length (calls st) + (length keys - rc)"
    using len lt by (simp add: st2_def)
  have arith: "(?i2 + int (length keys - Suc rc)) mod int (length keys)
        = (?i + int (length keys - rc)) mod int (length keys)"
  proof -
    have "int (length keys - rc) = 1 + int (length keys - Suc rc)" using lt by simp
    then show ?thesis by (simp add: mod_simps ac_simps)
  qed
  have cf': "conf st' = (conf st)\<lparr>current_key_index :=
                    (?i + int (length keys - rc)) mod int (length keys)\<rparr>"
  proof (cases "Suc rc = length keys")
    case True
    then have one: "int (length keys - rc) = 1" by simp
    from cf True have "conf st' = (conf st)\<lparr>current_key_index := ?i2\<rparr>"
      by (simp add: st2_def)
    then show ?thesis by (simp only: one)
  next
    case False
    with cf show ?thesis by (simp add: st2_def arith)
  qed
  show ?case
    unfolding step using res rot' len' cf' lt by simp
qed

text \<open>A call of \<^verbatim>\<open>generate_response\<close> keeps a well-formed pool well-formed.\<close>

lemma retry_loop_pool_ok:
  "pool_ok (conf st) \<Longrightarrow>
   pool_ok (conf (snd (retry_loop backend owner h cid um an keys api_key rc st)))"
proof (induction "length keys - rc" arbitrary: rc st api_key)
  case 0
  then have "\<not> rc < length keys" by simp
  with 0 show ?case by (simp add: retry_loop_done)
next
  case (Suc d)
  then have lt: "rc < length keys" by simp
  show ?case
  proof (cases rule: loop_body_cases [of backend owner h cid um an api_key st])
    case (return r0 st0)
    show ?thesis
      unfolding retry_loop_return [OF lt return(1)] using return(4) Suc.prems by simp
  next
    case (continue st2)
    have "conf st2 = snd (switch_to_next_key (conf st))"
      using continue(1,5) by (simp add: switch_to_next_key_many)
    with Suc.prems have ok: "pool_ok (conf st2)" by (simp add: pool_ok_switch)
    have d: "d = length keys - Suc rc" using Suc.hyps(2) by simp
    show ?thesis
      unfolding retry_loop_continue [OF lt continue(2)]
      using ok by (rule Suc.hyps(1) [OF d])
  qed
qed

lemma generate_response_pool_ok:
  assumes "pool_ok g"
  shows "pool_ok (conf (snd (generate_response backend owner h g b cid um an)))"
proof -
  obtain x where cur: "get_current_api_key g = (x, g)"
    using pool_ok_current [OF assms] by (cases "get_current_api_key g") auto
  show ?thesis
  proof (cases "\<exists>k. x = Inr (Some k) \<and> k \<noteq> []")
    case True
    then obtain k where x: "x = Inr (Some k)" and k: "k \<noteq> []" by blast
    show ?thesis
      unfolding generate_response_loop [OF cur [unfolded x] k]
      using assms by (intro retry_loop_pool_ok) simp
  next
    case False
    with cur assms show ?thesis
      by (auto simp: generate_response_def Let_def split: sum.splits option.splits)
  qed
qed

lemma rate_limit_exceeded_is_rate_limit: "is_rate_limit_error ''Rate limit exceeded''"
  by code_simp

lemma unauthorized_is_not_rate_limit: "\<not> is_rate_limit_error ''401 Unauthorized''"
  by code_simp

lemma key_seq_covers:
  assumes "distinct keys"
  shows "set (map (\<lambda>j. key_at keys (i + int j)) [0..<length keys]) = Some ` set keys"
proof (cases "keys = []")
  case True
  then show ?thesis by simp
next
  case False
  let ?s = "map (\<lambda>j. key_at keys (i + int j)) [0..<length keys]"
  have sub: "set ?s \<subseteq> Some ` set keys"
  proof
    fix x assume "x \<in> set ?s"
    then obtain j where x: "x = key_at keys (i + int j)" by auto
    obtain k where "key_at keys (i + int j) = Some k" "k \<in> set keys"
      using False by (rule key_at_mem)
    with x show "x \<in> Some ` set keys" by simp
  qed
  have "distinct ?s" using assms by (intro distinct_key_seq) simp_all
  then have "card (set ?s) = length ?s" by (rule distinct_card)
  then have c1: "card (set ?s) = length keys" by simp
  have "card (Some ` set keys) = card (set keys)" by (intro card_image) simp
  also have "\<dots> = length keys" using assms by (rule distinct_card)
  finally have c2: "card (Some ` set keys) = length keys" .
  show ?thesis by (rule card_subset_eq) (simp_all add: sub c1 c2 del: set_map)
qed

lemma retry_loop_passes:
  assumes many: "2 \<le> length keys" and keys: "api_keys (conf st) = keys"
    and key: "api_key = key_at keys (current_key_index (conf st))"
    and rc: "rc \<le> length mr"
    and fail: "\<And>b k. k \<in> set keys \<Longrightarrow>
       \<exists>e b'. backend b (build_request (Some k) owner h cid um an) = (Inl e, b') \<and>
              is_rate_limit_error e"
  shows "\<exists>st'. retry_loop backend owner h cid um an mr api_key rc st
                  = (Inr all_keys_exhausted_msg, st') \<and>
      rotations st' = rotations st + (length mr - rc) \<and>
      length (calls st') = length (calls st) + (length mr - rc) \<and>
      conf st' = (if rc = length mr then conf st
                  else (conf st)\<lparr>current_key_index :=
                    (current_key_index (conf st) + int (length mr - rc)) mod int (length keys)\<rparr>)"
  using keys key rc
proof (induction "length mr - rc" arbitrary: rc st api_key)
  case 0
  then have "\<not> rc < length mr" "rc = length mr" by simp_all
  then show ?case by (simp add: retry_loop_done)
next
  case (Suc d)
  then have lt: "rc < length mr" by simp
  from many have ne: "keys \<noteq> []" by auto
  let ?i = "current_key_index (conf st)"
  let ?i2 = "(?i + 1) mod int (length keys)"
  obtain k where k: "key_at keys ?i = Some k" "k \<in> set keys"
    using ne by (rule key_at_mem)
  from fail [OF k(2), of "bstate st"] obtain e b'
    where e: "backend (bstate st) (build_request (Some k) owner h cid um an) = (Inl e, b')"
      and rate: "is_rate_limit_error e"
    by blast
  define st2 where "st2 = st\<lparr>bstate := b',
      calls := calls st @ [build_request api_key owner h cid um an],
      conf := (conf st)\<lparr>current_key_index := ?i2\<rparr>,
      rotations := Suc (rotations st)\<rparr>"
  have body: "loop_body backend owner h cid um an api_key st = Continue (Some (keys ! nat ?i2)) st2"
    using loop_body_retry [where backend = backend and st = st and api_key = api_key
        and owner = owner and h = h and cid = cid and um = um and an = an, OF _ rate]
      e many Suc.prems(1,2) k(1)
    by (simp add: st2_def)
  have step: "retry_loop backend owner h cid um an mr api_key rc st =
      retry_loop backend owner h cid um an mr (Some (keys ! nat ?i2)) (Suc rc) st2"
    using lt body by (rule retry_loop_continue)
  have i2: "0 \<le> ?i2" "?i2 < int (length keys)"
    using ne by (simp_all add: pos_mod_sign pos_mod_bound)
  have "\<exists>st'. retry_loop backend owner h cid um an mr (Some (keys ! nat ?i2)) (Suc rc) st2
                  = (Inr all_keys_exhausted_msg, st') \<and>
      rotations st' = rotations st2 + (length mr - Suc rc) \<and>
      length (calls st') = length (calls st2) + (length mr - Suc rc) \<and>
      conf st' = (if Suc rc = length mr then conf st2
                  else (conf st2)\<lparr>current_key_index :=
                    (current_key_index (conf st2) + int (length mr - Suc rc))
                       mod int (length keys)\<rparr>)"
  proof (rule Suc.hyps(1))
    show "d = length mr - Suc rc" using Suc.hyps(2) by simp
    show "api_keys (conf st2) = keys" using Suc.prems(1) by (simp add: st2_def)
    show "Some (keys ! nat ?i2) = key_at keys (current_key_index (conf st2))"
      using i2 by (simp add: st2_def key_at_in_range)
    show "Suc rc \<le> length mr" using lt by simp
  qed
  then obtain st' where
    res: "retry_loop backend owner h cid um an mr (Some (keys ! nat ?i2)) (Suc rc) st2
                  = (Inr all_keys_exhausted_msg, st')"
    and rot: "rotations st' = rotations st2 + (length mr - Suc rc)"
    and len: "length (calls st') = length (calls st2) + (length mr - Suc rc)"
    and cf: "conf st' = (if Suc rc = length mr then conf st2
                  else (conf st2)\<lparr>current_key_index :=
                    (current_key_index (conf st2) + int (length mr - Suc rc))
                       mod int (length keys)\<rparr>)"
    by blast
  have rot': "rotations st' = rotations st + (length mr - rc)"
    using rot lt by (simp add: st2_def)
  have len': "length (calls st') = length (calls st) + (length mr - rc)"
    using len lt by (simp add: st2_def)
  have arith: "(?i2 + int (length mr - Suc rc)) mod int (length keys)
        = (?i + int (length mr - rc)) mod int (length keys)"
  proof -
    have "int (length mr - rc) = 1 + int (length mr - Suc rc)" using lt by simp
    then show ?thesis by (simp add: mod_simps ac_simps)
  qed
  have cf': "conf st' = (conf st)\<lparr>current_key_index :=
                    (?i + int (length mr - rc)) mod int (length keys)\<rparr>"
  proof (cases "Suc rc = length mr")
    case True
    then have one: "int (length mr - rc) = 1" by simp
    from cf True have "conf st' = (conf st)\<lparr>current_key_index := ?i2\<rparr>"
      by (simp add: st2_def)
    then show ?thesis by (simp only: one)
  next
    case False
    with cf show ?thesis by (simp add: st2_def arith)
  qed
  show ?case
    unfolding step using res rot' len' cf' lt by simp
qed

text \<open>
  With every key rate-limited, the call sends its requests with the keys in the order of
  the rotation, starting at the current one.
\<close>

lemma generate_response_cycle_keys:
  assumes many: "2 \<le> length (api_keys g)"
    and lo: "0 \<le> current_key_index g"
    and hi: "current_key_index g < int (length (api_keys g))"
    and ne: "api_keys g ! nat (current_key_index g) \<noteq> []"
    and fail: "\<And>b r. req_api_key r \<in> Some ` set (api_keys g) \<Longrightarrow>
       \<exists>e b'. backend b r = (Inl e, b') \<and> is_rate_limit_error e"
  shows "\<exists>st. generate_response backend owner h g b cid um an
                 = (Inr all_keys_exhausted_msg, st) \<and>
     rotations st = length (api_keys g) \<and>
     length (calls st) = length (api_keys g) \<and>
     map req_api_key (calls st) =
       map (\<lambda>j. Some (api_keys g !
                    nat ((current_key_index g + int j) mod int (length (api_keys g)))))
         [0..<length (api_keys g)] \<and>
     (distinct (api_keys g) \<longrightarrow>
        distinct (map req_api_key (calls st)) \<and>
        set (map req_api_key (calls st)) = Some ` set (api_keys g)) \<and>
     current_key_index (conf st) = current_key_index g \<and>
     conf st = g"
proof -
  let ?n = "length (api_keys g)"
  let ?k = "api_keys g ! nat (current_key_index g)"
  let ?st0 = "\<lparr>conf = g, bstate = b, calls = [], rotations = 0\<rparr>"
  let ?seq = "\<lambda>m. map (\<lambda>j. key_at (api_keys g) (current_key_index g + int j)) [0..<m]"
  from many have nonempty: "api_keys g \<noteq> []" by auto
  have cur: "get_current_api_key g = (Inr (Some ?k), g)"
    using lo hi by (rule get_current_api_key_in_range)
  have key: "Some ?k = key_at (api_keys g) (current_key_index (conf ?st0))"
    using lo hi by (simp add: key_at_in_range)
  have gen: "generate_response backend owner h g b cid um an =
     retry_loop backend owner h cid um an (api_keys g) (Some ?k) 0 ?st0"
    using cur ne by (rule generate_response_loop)
  have "\<exists>st'. retry_loop backend owner h cid um an (api_keys g) (Some ?k) 0 ?st0
                  = (Inr all_keys_exhausted_msg, st') \<and>
      rotations st' = rotations ?st0 + (?n - 0) \<and>
      length (calls st') = length (calls ?st0) + (?n - 0) \<and>
      conf st' = (if 0 = ?n then conf ?st0
                  else (conf ?st0)\<lparr>current_key_index :=
                    (current_key_index (conf ?st0) + int (?n - 0)) mod int ?n\<rparr>)"
  proof (rule retry_loop_all_rate_limited [OF many])
    show "api_keys (conf ?st0) = api_keys g" by simp
    show "Some ?k = key_at (api_keys g) (current_key_index (conf ?st0))" by (rule key)
    show "0 \<le> ?n" by simp
    fix b' k assume "k \<in> set (api_keys g)"
    then have "req_api_key (build_request (Some k) owner h cid um an) \<in> Some ` set (api_keys g)"
      by simp
    then show "\<exists>e b''. backend b' (build_request (Some k) owner h cid um an) = (Inl e, b'') \<and>
        is_rate_limit_error e"
      by (rule fail)
  qed
  then obtain st where res: "retry_loop backend owner h cid um an (api_keys g) (Some ?k) 0 ?st0
                  = (Inr all_keys_exhausted_msg, st)"
    and rot: "rotations st = ?n"
    and len: "length (calls st) = ?n"
    and cf: "conf st = g\<lparr>current_key_index :=
        (current_key_index g + int ?n) mod int ?n\<rparr>"
    using many by auto
  have "(current_key_index g + int ?n) mod int ?n = current_key_index g"
    using lo hi by simp
  with cf have same: "conf st = g" by simp
  \<comment> \<open>the keys of the requests, in the order sent\<close>
  have "\<exists>m \<le> ?n - 0.
      map req_api_key
        (calls (snd (retry_loop backend owner h cid um an (api_keys g) (Some ?k) 0 ?st0))) =
      map req_api_key (calls ?st0) @
      map (\<lambda>j. key_at (api_keys g) (current_key_index (conf ?st0) + int j)) [0..<m]"
  proof (rule retry_loop_trace)
    show "api_keys (conf ?st0) = api_keys g" by simp
    show "api_keys g \<noteq> []" by (rule nonempty)
    show "Some ?k = key_at (api_keys g) (current_key_index (conf ?st0))" by (rule key)
  qed
  then obtain m where tr: "map req_api_key (calls st) = ?seq m"
    unfolding res by auto
  from tr have "length (map req_api_key (calls st)) = m" by simp
  with len have "m = ?n" by simp
  with tr have sent: "map req_api_key (calls st) = ?seq ?n" by simp
  then have sent': "map req_api_key (calls st) =
       map (\<lambda>j. Some (api_keys g ! nat ((current_key_index g + int j) mod int ?n))) [0..<?n]"
    by (simp only: key_at_def)
  have dis: "distinct (map req_api_key (calls st)) \<and>
        set (map req_api_key (calls st)) = Some ` set (api_keys g)"
    if d: "distinct (api_keys g)"
  proof
    show "distinct (map req_api_key (calls st))"
      unfolding sent using d by (intro distinct_key_seq) simp_all
    show "set (map req_api_key (calls st)) = Some ` set (api_keys g)"
      unfolding sent using d by (rule key_seq_covers)
  qed
  have "generate_response backend owner h g b cid um an = (Inr all_keys_exhausted_msg, st)"
    unfolding gen by (rule res)
  with rot len sent' dis same show ?thesis by (intro exI [of _ st]) simp
qed


text \<open>
  With every key rate-limited, the loop run with a bound of \<open>m\<close> passes stops after \<open>m\<close>
  rotations, with the index \<open>m\<close> places further round the pool.
\<close>

lemma retry_loop_index_after:
  assumes many: "2 \<le> length (api_keys g)"
    and lo: "0 \<le> current_key_index g"
    and hi: "current_key_index g < int (length (api_keys g))"
    and fail: "\<And>b r. req_api_key r \<in> Some ` set (api_keys g) \<Longrightarrow>
       \<exists>e b'. backend b r = (Inl e, b') \<and> is_rate_limit_error e"
  shows "\<forall>m \<le> length (api_keys g).
       \<exists>st. retry_loop backend owner h cid um an (take m (api_keys g))
               (Some (api_keys g ! nat (current_key_index g))) 0
               \<lparr>conf = g, bstate = b, calls = [], rotations = 0\<rparr>
               = (Inr all_keys_exhausted_msg, st) \<and>
            rotations st = m \<and>
            current_key_index (conf st) =
              (current_key_index g + int m) mod int (length (api_keys g))"
proof (intro allI impI)
  fix m assume m: "m \<le> length (api_keys g)"
  let ?n = "length (api_keys g)"
  let ?k = "api_keys g ! nat (current_key_index g)"
  let ?st0 = "\<lparr>conf = g, bstate = b, calls = [], rotations = 0\<rparr>"
  have lm: "length (take m (api_keys g)) = m" using m by simp
  have "\<exists>st'. retry_loop backend owner h cid um an (take m (api_keys g)) (Some ?k) 0 ?st0
                  = (Inr all_keys_exhausted_msg, st') \<and>
      rotations st' = rotations ?st0 + (length (take m (api_keys g)) - 0) \<and>
      length (calls st') = length (calls ?st0) + (length (take m (api_keys g)) - 0) \<and>
      conf st' = (if 0 = length (take m (api_keys g)) then conf ?st0
                  else (conf ?st0)\<lparr>current_key_index :=
                    (current_key_index (conf ?st0) + int (length (take m (api_keys g)) - 0))
                      mod int ?n\<rparr>)"
  proof (rule retry_loop_passes [OF many])
    show "api_keys (conf ?st0) = api_keys g" by simp
    show "Some ?k = key_at (api_keys g) (current_key_index (conf ?st0))"
      using lo hi by (simp add: key_at_in_range)
    show "0 \<le> length (take m (api_keys g))" by simp
    fix b' k assume "k \<in> set (api_keys g)"
    then have "req_api_key (build_request (Some k) owner h cid um an) \<in> Some ` set (api_keys g)"
      by simp
    then show "\<exists>e b''. backend b' (build_request (Some k) owner h cid um an) = (Inl e, b'') \<and>
        is_rate_limit_error e"
      by (rule fail)
  qed
  then obtain st where res: "retry_loop backend owner h cid um an (take m (api_keys g))
        (Some ?k) 0 ?st0 = (Inr all_keys_exhausted_msg, st)"
    and rot: "rotations st = m"
    and cf: "conf st = (if 0 = m then g
                  else g\<lparr>current_key_index := (current_key_index g + int m) mod int ?n\<rparr>)"
    unfolding lm by auto
  have "current_key_index (conf st) = (current_key_index g + int m) mod int ?n"
    using cf lo hi by (cases "m = 0") simp_all
  with res rot show "\<exists>st. retry_loop backend owner h cid um an (take m (api_keys g))
               (Some ?k) 0 ?st0 = (Inr all_keys_exhausted_msg, st) \<and>
            rotations st = m \<and>
            current_key_index (conf st) = (current_key_index g + int m) mod int ?n"
    by blast
qed

text \<open>
  C10: with \<open>N \<ge> 2\<close> keys, the index in range and a non-empty current key, if the backend
  answers every request that carries a key of the pool with an error that the classifier
  takes for a rate limit, \<^verbatim>\<open>generate_response\<close> sends \<open>N\<close> requests, rotates \<open>N\<close> times
  and returns "All API keys have reached their limit. ...". The request number \<open>j\<close>
  (from 0) carries the key at index \<open>(current_key_index + j) mod N\<close>, so with distinct keys
  every key of the pool is tried exactly once; the loop stopped after \<open>m \<le> N\<close> passes has
  rotated \<open>m\<close> times and stored the index \<open>(current_key_index + m) mod N\<close>; and after the
  \<open>N\<close> rotations of the call the stored index is back at its value from before the call,
  the configuration being unchanged.
\<close>

theorem generate_response_full_cycle:
  assumes many: "2 \<le> length (api_keys g)"
    and lo: "0 \<le> current_key_index g"
    and hi: "current_key_index g < int (length (api_keys g))"
    and ne: "api_keys g ! nat (current_key_index g) \<noteq> []"
    and fail: "\<forall>b r. req_api_key r \<in> Some ` set (api_keys g) \<longrightarrow>
       (\<exists>e b'. backend b r = (Inl e, b') \<and> is_rate_limit_error e)"
  shows "(\<exists>st. generate_response backend owner h g b cid um an
                 = (Inr all_keys_exhausted_msg, st) \<and>
     rotations st = length (api_keys g) \<and>
     length (calls st) = length (api_keys g) \<and>
     map req_api_key (calls st) =
       map (\<lambda>j. Some (api_keys g !
                    nat ((current_key_index g + int j) mod int (length (api_keys g)))))
         [0..<length (api_keys g)] \<and>
     (distinct (api_keys g) \<longrightarrow>
        distinct (map req_api_key (calls st)) \<and>
        set (map req_api_key (calls st)) = Some ` set (api_keys g)) \<and>
     current_key_index (conf st) = current_key_index g \<and>
     conf st = g) \<and>
   (\<forall>m \<le> length (api_keys g).
       \<exists>st. retry_loop backend owner h cid um an (take m (api_keys g))
               (Some (api_keys g ! nat (current_key_index g))) 0
               \<lparr>conf = g, bstate = b, calls = [], rotations = 0\<rparr>
               = (Inr all_keys_exhausted_msg, st) \<and>
            rotations st = m \<and>
            current_key_index (conf st) =
              (current_key_index g + int m) mod int (length (api_keys g)))"
proof (rule conjI)
  from fail have f: "\<And>b r. req_api_key r \<in> Some ` set (api_keys g) \<Longrightarrow>
       \<exists>e b'. backend b r = (Inl e, b') \<and> is_rate_limit_error e"
    by blast
  show "\<exists>st. generate_response backend owner h g b cid um an
                 = (Inr all_keys_exhausted_msg, st) \<and>
     rotations st = length (api_keys g) \<and>
     length (calls st) = length (api_keys g) \<and>
     map req_api_key (calls st) =
       map (\<lambda>j. Some (api_keys g !
                    nat ((current_key_index g + int j) mod int (length (api_keys g)))))
         [0..<length (api_keys g)] \<and>
     (distinct (api_keys g) \<longrightarrow>
        distinct (map req_api_key (calls st)) \<and>
        set (map req_api_key (calls st)) = Some ` set (api_keys g)) \<and>
     current_key_index (conf st) = current_key_index g \<and>
     conf st = g"
    using many lo hi ne f
    by (rule generate_response_cycle_keys [where backend = backend])
  show "\<forall>m \<le> length (api_keys g).
       \<exists>st. retry_loop backend owner h cid um an (take m (api_keys g))
               (Some (api_keys g ! nat (current_key_index g))) 0
               \<lparr>conf = g, bstate = b, calls = [], rotations = 0\<rparr>
               = (Inr all_keys_exhausted_msg, st) \<and>
            rotations st = m \<and>
            current_key_index (conf st) =
              (current_key_index g + int m) mod int (length (api_keys g))"
    using many lo hi f
    by (rule retry_loop_index_after [where backend = backend])
qed

lemma two_keys_rate_limited:
  "\<forall>b r. req_api_key r \<in> Some ` set (api_keys two_keys) \<longrightarrow>
     (\<exists>e b'. rate_limited_backend b r = (Inl e, b') \<and> is_rate_limit_error e)"
  by (simp add: rate_limited_backend_def simulated_backend_def
        rate_limit_exceeded_is_rate_limit)

theorem generate_response_full_cycle_witness:
  "(\<exists>st. generate_response rate_limited_backend None init_history two_keys 0 7 ''hello'' ''al''
           = (Inr all_keys_exhausted_msg, st) \<and>
        rotations st = 2 \<and> length (calls st) = 2 \<and>
        map req_api_key (calls st) = [Some ''k2'', Some ''k1''] \<and>
        current_key_index (conf st) = 1 \<and>
        conf st = two_keys) \<and>
   (\<exists>st. retry_loop rate_limited_backend None init_history 7 ''hello'' ''al''
           (take 1 (api_keys two_keys)) (Some ''k2'') 0
           \<lparr>conf = two_keys, bstate = 0, calls = [], rotations = 0\<rparr>
           = (Inr all_keys_exhausted_msg, st) \<and>
        rotations st = 1 \<and> current_key_index (conf st) = 0)"
proof -
  have many: "2 \<le> length (api_keys two_keys)" by (simp add: two_keys_def)
  have lo: "0 \<le> current_key_index two_keys" by (simp add: two_keys_def)
  have hi: "current_key_index two_keys < int (length (api_keys two_keys))"
    by (simp add: two_keys_def)
  have ne: "api_keys two_keys ! nat (current_key_index two_keys) \<noteq> []"
    by (simp add: two_keys_def)
  note t = generate_response_full_cycle [where backend = rate_limited_backend and g = two_keys
      and owner = None and h = init_history and b = 0 and cid = 7 and um = "''hello''"
      and an = "''al''", OF many lo hi ne two_keys_rate_limited]
  have k: "api_keys two_keys ! nat (current_key_index two_keys) = ''k2''"
    by (simp add: two_keys_def)
  have n: "length (api_keys two_keys) = 2" by (simp add: two_keys_def)
  have i: "current_key_index two_keys = 1" by (simp add: two_keys_def)
  have seq: "map (\<lambda>j. Some (api_keys two_keys !
        nat ((current_key_index two_keys + int j) mod int (length (api_keys two_keys)))))
        [0..<length (api_keys two_keys)] = [Some ''k2'', Some ''k1'']"
    by (simp add: two_keys_def numeral_2_eq_2)
  from conjunct1 [OF t] obtain st
    where res: "generate_response rate_limited_backend None init_history two_keys 0 7
         ''hello'' ''al'' = (Inr all_keys_exhausted_msg, st)"
      and rot: "rotations st = length (api_keys two_keys)"
      and len: "length (calls st) = length (api_keys two_keys)"
      and sent: "map req_api_key (calls st) =
        map (\<lambda>j. Some (api_keys two_keys !
          nat ((current_key_index two_keys + int j) mod int (length (api_keys two_keys)))))
          [0..<length (api_keys two_keys)]"
      and same: "conf st = two_keys"
    by blast
  have first: "\<exists>st. generate_response rate_limited_backend None
         init_history two_keys 0 7 ''hello'' ''al'' = (Inr all_keys_exhausted_msg, st) \<and>
        rotations st = 2 \<and> length (calls st) = 2 \<and>
        map req_api_key (calls st) = [Some ''k2'', Some ''k1''] \<and>
        current_key_index (conf st) = 1 \<and>
        conf st = two_keys"
    by (rule exI [of _ st]) (simp add: res rot len sent [unfolded seq] same n i)
  have one: "1 \<le> length (api_keys two_keys)" by (simp add: n)
  from conjunct2 [OF t, rule_format, OF one] obtain st1
    where res1: "retry_loop rate_limited_backend None init_history 7 ''hello'' ''al''
           (take 1 (api_keys two_keys))
           (Some (api_keys two_keys ! nat (current_key_index two_keys))) 0
           \<lparr>conf = two_keys, bstate = 0, calls = [], rotations = 0\<rparr>
           = (Inr all_keys_exhausted_msg, st1)"
      and rot1: "rotations st1 = 1"
      and idx1: "current_key_index (conf st1) =
          (current_key_index two_keys + int 1) mod int (length (api_keys two_keys))"
    by blast
  have second: "\<exists>st. retry_loop rate_limited_backend None init_history 7 ''hello'' ''al''
           (take 1 (api_keys two_keys)) (Some ''k2'') 0
           \<lparr>conf = two_keys, bstate = 0, calls = [], rotations = 0\<rparr>
           = (Inr all_keys_exhausted_msg, st) \<and>
        rotations st = 1 \<and> current_key_index (conf st) = 0"
  proof -
    note res1 [unfolded k]
    moreover note rot1
    moreover have "current_key_index (conf st1) = 0" using idx1 by (simp add: n i)
    ultimately show ?thesis by blast
  qed
  from first second show ?thesis by (rule conjI)
qed

text \<open>
  C1: with a pool of three keys, the index at the first and the first key non-empty, if the
  backend answers requests with the first and the second key with errors that the
  classifier takes for a rate limit, and requests with the third key with a completion,
  \<^verbatim>\<open>generate_response\<close> sends exactly three requests, one per key in order, rotates
  twice, returns that completion as it is, and leaves the stored index at 2, the third key.
\<close>

theorem generate_response_third_key:
  assumes keys: "api_keys g = [k1, k2, k3]"
    and idx: "current_key_index g = 0"
    and ne: "k1 \<noteq> []"
    and fail1: "\<And>b r. req_api_key r = Some k1 \<Longrightarrow>
       \<exists>e b'. backend b r = (Inl e, b') \<and> is_rate_limit_error e"
    and fail2: "\<And>b r. req_api_key r = Some k2 \<Longrightarrow>
       \<exists>e b'. backend b r = (Inl e, b') \<and> is_rate_limit_error e"
    and ok3: "\<And>b r. req_api_key r = Some k3 \<Longrightarrow> \<exists>b'. backend b r = (Inr content, b')"
  shows "\<exists>st. generate_response backend owner h g b cid um an = (Inr content, st) \<and>
     length (calls st) = 3 \<and>
     map req_api_key (calls st) = [Some k1, Some k2, Some k3] \<and>
     rotations st = 2 \<and>
     conf st = g\<lparr>current_key_index := 2\<rparr>"
proof -
  let ?req = "\<lambda>k. build_request (Some k) owner h cid um an"
  let ?st0 = "\<lparr>conf = g, bstate = b, calls = [], rotations = 0\<rparr>"
  have cur: "get_current_api_key g = (Inr (Some k1), g)"
    using get_current_api_key_in_range [of g] keys idx by simp
  have gen: "generate_response backend owner h g b cid um an =
     retry_loop backend owner h cid um an (api_keys g) (Some k1) 0 ?st0"
    using cur ne by (rule generate_response_loop)
  \<comment> \<open>first attempt, with the first key\<close>
  obtain e1 b1 where a1: "backend (bstate ?st0) (?req k1) = (Inl e1, b1)"
    and r1: "is_rate_limit_error e1"
    using fail1 [of "?req k1" "bstate ?st0"] by auto
  define st1 where "st1 = ?st0\<lparr>bstate := b1, calls := calls ?st0 @ [?req k1],
      conf := (conf ?st0)\<lparr>current_key_index := 1\<rparr>, rotations := Suc (rotations ?st0)\<rparr>"
  have body1: "loop_body backend owner h cid um an (Some k1) ?st0 = Continue (Some k2) st1"
    using loop_body_retry [where backend = backend and st = ?st0 and api_key = "Some k1"
        and owner = owner and h = h and cid = cid and um = um and an = an, OF a1 r1]
    by (simp add: keys idx st1_def)
  have step1: "retry_loop backend owner h cid um an (api_keys g) (Some k1) 0 ?st0 =
      retry_loop backend owner h cid um an (api_keys g) (Some k2) (Suc 0) st1"
    by (rule retry_loop_continue [OF _ body1]) (simp add: keys)
  \<comment> \<open>second attempt, with the second key\<close>
  obtain e2 b2 where a2: "backend (bstate st1) (?req k2) = (Inl e2, b2)"
    and r2: "is_rate_limit_error e2"
    using fail2 [of "?req k2" "bstate st1"] by auto
  define st2 where "st2 = st1\<lparr>bstate := b2, calls := calls st1 @ [?req k2],
      conf := (conf st1)\<lparr>current_key_index := 2\<rparr>, rotations := Suc (rotations st1)\<rparr>"
  have body2: "loop_body backend owner h cid um an (Some k2) st1 = Continue (Some k3) st2"
    using loop_body_retry [where backend = backend and st = st1 and api_key = "Some k2"
        and owner = owner and h = h and cid = cid and um = um and an = an, OF a2 r2]
    by (simp add: keys st1_def st2_def)
  have step2: "retry_loop backend owner h cid um an (api_keys g) (Some k2) (Suc 0) st1 =
      retry_loop backend owner h cid um an (api_keys g) (Some k3) (Suc (Suc 0)) st2"
    by (rule retry_loop_continue [OF _ body2]) (simp add: keys)
  \<comment> \<open>third attempt, with the third key\<close>
  obtain b3 where a3: "backend (bstate st2) (?req k3) = (Inr content, b3)"
    using ok3 [of "?req k3" "bstate st2"] by auto
  define st3 where "st3 = st2\<lparr>bstate := b3, calls := calls st2 @ [?req k3]\<rparr>"
  have body3: "loop_body backend owner h cid um an (Some k3) st2 = Return (Inr content) st3"
    unfolding st3_def using a3 by (rule loop_body_success)
  have step3: "retry_loop backend owner h cid um an (api_keys g) (Some k3) (Suc (Suc 0)) st2 =
      (Inr content, st3)"
    by (rule retry_loop_return [OF _ body3]) (simp add: keys)
  have f1: "generate_response backend owner h g b cid um an = (Inr content, st3)"
    by (simp only: gen step1 step2 step3)
  have f2: "map req_api_key (calls st3) = [Some k1, Some k2, Some k3]"
    by (simp add: st3_def st2_def st1_def)
  have f3: "length (calls st3) = 3" by (simp add: st3_def st2_def st1_def)
  have f4: "rotations st3 = 2" by (simp add: st3_def st2_def st1_def)
  have f5: "conf st3 = g\<lparr>current_key_index := 2\<rparr>" by (simp add: st3_def st2_def st1_def)
  show ?thesis
    by (rule exI [of _ st3]) (simp only: f1 f2 f3 f4 f5 simp_thms)
qed

theorem generate_response_third_key_witness:
  "\<exists>st. generate_response third_key_backend None init_history three_keys 0 7 ''hello'' ''al''
           = (Inr ''hi there'', st) \<and>
        length (calls st) = 3 \<and>
        map req_api_key (calls st) = [Some ''k1'', Some ''k2'', Some ''k3''] \<and>
        rotations st = 2 \<and>
        conf st = three_keys\<lparr>current_key_index := 2\<rparr>"
proof (rule generate_response_third_key)
  show "api_keys three_keys = [''k1'', ''k2'', ''k3'']" by (simp add: three_keys_def)
  show "current_key_index three_keys = 0" by (simp add: three_keys_def)
  show "''k1'' \<noteq> []" by simp
  show "\<exists>e b'. third_key_backend b r = (Inl e, b') \<and> is_rate_limit_error e"
    if "req_api_key r = Some ''k1''" for b r
    using that by (simp add: third_key_backend_def simulated_backend_def
          rate_limit_exceeded_is_rate_limit)
  show "\<exists>e b'. third_key_backend b r = (Inl e, b') \<and> is_rate_limit_error e"
    if "req_api_key r = Some ''k2''" for b r
    using that by (simp add: third_key_backend_def simulated_backend_def
          rate_limit_exceeded_is_rate_limit)
  show "\<exists>b'. third_key_backend b r = (Inr ''hi there'', b')"
    if "req_api_key r = Some ''k3''" for b r
    using that by (simp add: third_key_backend_def simulated_backend_def)
qed


lemma get_current_api_key_keys:
  assumes "get_current_api_key g = (Inr (Some k), g1)"
  shows "api_keys g1 = api_keys g" and "api_keys g \<noteq> []"
  using assms
  by (auto simp: get_current_api_key_def get_api_keys_def Let_def split: if_splits)

text \<open>
  C3: in any pass of the loop, an error that the classifier does not take for a rate
  limit, or any error when \<^verbatim>\<open>switch_to_next_key\<close> returns \<^verbatim>\<open>False\<close>, ends the call: the
  result is "Error generating AI response: " followed by the error text, the request
  just sent is the last one, and the configuration and the rotation count stay as they
  were. When this happens on the first pass, the call has sent exactly one request and
  has not rotated.
\<close>

theorem fatal_error_ends_call:
  "(rc < length max_retries \<and>
    backend (bstate st) (build_request api_key owner h cid um an) = (Inl e, b') \<and>
    (\<not> is_rate_limit_error e \<or> \<not> fst (switch_to_next_key (conf st)))
    \<longrightarrow>
    retry_loop backend owner h cid um an max_retries api_key rc st =
      (Inr (cross_mark @ '' Error generating AI response: '' @ e),
       st\<lparr>bstate := b', calls := calls st @ [build_request api_key owner h cid um an]\<rparr>))
   \<and>
   (get_current_api_key g = (Inr (Some k), g1) \<and> k \<noteq> [] \<and>
    backend b (build_request (Some k) owner h cid um an) = (Inl e, b') \<and>
    (\<not> is_rate_limit_error e \<or> \<not> fst (switch_to_next_key g1))
    \<longrightarrow>
    generate_response backend owner h g b cid um an =
      (Inr (cross_mark @ '' Error generating AI response: '' @ e),
       \<lparr>conf = g1, bstate = b', calls = [build_request (Some k) owner h cid um an],
        rotations = 0\<rparr>))"
proof (intro conjI impI)
  assume a: "rc < length max_retries \<and>
    backend (bstate st) (build_request api_key owner h cid um an) = (Inl e, b') \<and>
    (\<not> is_rate_limit_error e \<or> \<not> fst (switch_to_next_key (conf st)))"
  then have body: "loop_body backend owner h cid um an api_key st =
     Return (Inr (error_msg_of e))
       (st\<lparr>bstate := b', calls := calls st @ [build_request api_key owner h cid um an]\<rparr>)"
    by (intro loop_body_fatal [where backend = backend and st = st]) simp_all
  from a have "rc < length max_retries" by simp
  from retry_loop_return [OF this body]
  show "retry_loop backend owner h cid um an max_retries api_key rc st =
      (Inr (cross_mark @ '' Error generating AI response: '' @ e),
       st\<lparr>bstate := b', calls := calls st @ [build_request api_key owner h cid um an]\<rparr>)"
    by (simp add: error_msg_of_def)
next
  let ?st0 = "\<lparr>conf = g1, bstate = b, calls = [], rotations = 0\<rparr>"
  assume a: "get_current_api_key g = (Inr (Some k), g1) \<and> k \<noteq> [] \<and>
    backend b (build_request (Some k) owner h cid um an) = (Inl e, b') \<and>
    (\<not> is_rate_limit_error e \<or> \<not> fst (switch_to_next_key g1))"
  then have cur: "get_current_api_key g = (Inr (Some k), g1)" and k: "k \<noteq> []" by simp_all
  have gen: "generate_response backend owner h g b cid um an =
     retry_loop backend owner h cid um an (api_keys g1) (Some k) 0 ?st0"
    using cur k by (rule generate_response_loop)
  have pos: "0 < length (api_keys g1)"
    using get_current_api_key_keys [OF cur] by simp
  from a have body: "loop_body backend owner h cid um an (Some k) ?st0 =
     Return (Inr (error_msg_of e))
       (?st0\<lparr>bstate := b', calls := calls ?st0 @ [build_request (Some k) owner h cid um an]\<rparr>)"
    by (intro loop_body_fatal [where backend = backend and st = ?st0]) simp_all
  from retry_loop_return [OF pos body]
  show "generate_response backend owner h g b cid um an =
      (Inr (cross_mark @ '' Error generating AI response: '' @ e),
       \<lparr>conf = g1, bstate = b', calls = [build_request (Some k) owner h cid um an],
        rotations = 0\<rparr>)"
    unfolding gen by (simp add: error_msg_of_def)
qed

lemma get_current_three_keys: "get_current_api_key three_keys = (Inr (Some ''k1''), three_keys)"
  using get_current_api_key_in_range [of three_keys] by (simp add: three_keys_def)

lemma get_current_one_key: "get_current_api_key one_key = (Inr (Some ''k1''), one_key)"
  using get_current_api_key_in_range [of one_key] by (simp add: one_key_def)

lemma switch_one_key: "\<not> fst (switch_to_next_key one_key)"
  by (simp add: switch_to_next_key_few one_key_def)

theorem fatal_error_ends_call_witness:
  "generate_response unauthorized_backend None init_history three_keys 0 7 ''hello'' ''al'' =
      (Inr (cross_mark @ '' Error generating AI response: '' @ ''401 Unauthorized''),
       \<lparr>conf = three_keys, bstate = 1,
        calls = [build_request (Some ''k1'') None init_history 7 ''hello'' ''al''],
        rotations = 0\<rparr>) \<and>
   generate_response rate_limited_backend None init_history one_key 0 7 ''hello'' ''al'' =
      (Inr (cross_mark @ '' Error generating AI response: '' @ ''Rate limit exceeded''),
       \<lparr>conf = one_key, bstate = 1,
        calls = [build_request (Some ''k1'') None init_history 7 ''hello'' ''al''],
        rotations = 0\<rparr>)"
proof -
  have first: "generate_response unauthorized_backend None init_history three_keys 0 7
        ''hello'' ''al'' =
      (Inr (cross_mark @ '' Error generating AI response: '' @ ''401 Unauthorized''),
       \<lparr>conf = three_keys, bstate = 1,
        calls = [build_request (Some ''k1'') None init_history 7 ''hello'' ''al''],
        rotations = 0\<rparr>)"
    using conjunct2 [OF fatal_error_ends_call
        [where backend = unauthorized_backend and g = three_keys and ?g1.0 = three_keys
           and k = "''k1''" and b = 0 and b' = 1 and e = "''401 Unauthorized''"
           and owner = None and h = init_history and cid = 7 and um = "''hello''"
           and an = "''al''"]]
    by (simp add: get_current_three_keys unauthorized_backend_def simulated_backend_def
          unauthorized_is_not_rate_limit)
  have second: "generate_response rate_limited_backend None init_history one_key 0 7
        ''hello'' ''al'' =
      (Inr (cross_mark @ '' Error generating AI response: '' @ ''Rate limit exceeded''),
       \<lparr>conf = one_key, bstate = 1,
        calls = [build_request (Some ''k1'') None init_history 7 ''hello'' ''al''],
        rotations = 0\<rparr>)"
    using conjunct2 [OF fatal_error_ends_call
        [where backend = rate_limited_backend and g = one_key and ?g1.0 = one_key
           and k = "''k1''" and b = 0 and b' = 1 and e = "''Rate limit exceeded''"
           and owner = None and h = init_history and cid = 7 and um = "''hello''"
           and an = "''al''"]]
    by (simp add: get_current_one_key rate_limited_backend_def simulated_backend_def
          switch_one_key)
  from first second show ?thesis by blast
qed


lemma error_msg_is_not_exhausted_msg: "error_msg_of e \<noteq> all_keys_exhausted_msg"
  by (simp add: error_msg_of_def all_keys_exhausted_msg_def)

text \<open>
  C2, as stated, fails for a pool of one key: when the only attempt fails with a
  rate-limit error, the call has made \<open>N = 1\<close> attempts, none succeeded, and the result is
  the error-prefixed message, not the all-keys-exhausted one.
\<close>

theorem one_key_rate_limited_not_exhausted:
  "is_rate_limit_error ''Rate limit exceeded'' \<and>
   length (calls (snd (generate_response rate_limited_backend None init_history one_key 0 7
      ''hello'' ''al''))) = length (api_keys one_key) \<and>
   fst (generate_response rate_limited_backend None init_history one_key 0 7 ''hello'' ''al'')
     = Inr (error_msg_of ''Rate limit exceeded'') \<and>
   fst (generate_response rate_limited_backend None init_history one_key 0 7 ''hello'' ''al'')
     \<noteq> Inr all_keys_exhausted_msg"
proof -
  have run: "generate_response rate_limited_backend None init_history one_key 0 7
        ''hello'' ''al'' =
      (Inr (error_msg_of ''Rate limit exceeded''),
       \<lparr>conf = one_key, bstate = 1,
        calls = [build_request (Some ''k1'') None init_history 7 ''hello'' ''al''],
        rotations = 0\<rparr>)"
  proof -
    have body: "loop_body rate_limited_backend None init_history 7 ''hello'' ''al'' (Some ''k1'')
        \<lparr>conf = one_key, bstate = 0, calls = [], rotations = 0\<rparr> =
      Return (Inr (error_msg_of ''Rate limit exceeded''))
       (\<lparr>conf = one_key, bstate = 0, calls = [], rotations = 0\<rparr>
          \<lparr>bstate := 1,
           calls := calls \<lparr>conf = one_key, bstate = 0::nat, calls = [], rotations = 0\<rparr> @
             [build_request (Some ''k1'') None init_history 7 ''hello'' ''al'']\<rparr>)"
      by (rule loop_body_fatal)
         (simp_all add: rate_limited_backend_def simulated_backend_def switch_one_key)
    have "0 < length (api_keys one_key)" by (simp add: one_key_def)
    from retry_loop_return [OF this body]
    show ?thesis
      unfolding generate_response_loop [OF get_current_one_key, of rate_limited_backend
          None init_history 0 7 "''hello''" "''al''", simplified]
      by simp
  qed
  show ?thesis
    unfolding run
    by (simp add: rate_limit_exceeded_is_rate_limit error_msg_is_not_exhausted_msg)
       (simp add: one_key_def)
qed


lemma retry_loop_one_key:
  assumes "length (api_keys (conf st)) < 2"
  shows "rotations (snd (retry_loop backend owner h cid um an keys api_key rc st)) = rotations st"
proof (cases "rc < length keys")
  case False
  then show ?thesis by (simp add: retry_loop_done)
next
  case True
  show ?thesis
  proof (cases rule: loop_body_cases [of backend owner h cid um an api_key st])
    case (return r0 st0)
    show ?thesis unfolding retry_loop_return [OF True return(1)] using return(3) by simp
  next
    case (continue st2)
    with assms show ?thesis by simp
  qed
qed

lemma generate_response_attempts:
  assumes "generate_response backend owner h g b cid um an = (r, st)" and "api_keys g \<noteq> []"
  shows "length (calls st) \<le> length (api_keys g) \<and>
         (distinct (api_keys g) \<longrightarrow> distinct (map req_api_key (calls st))) \<and>
         (rotations st = length (api_keys g) \<longrightarrow> r = Inr all_keys_exhausted_msg)"
proof -
  let ?n = "length (api_keys g)"
  from assms(2) have pos: "0 < ?n" by simp
  obtain x g1 where cur: "get_current_api_key g = (x, g1)"
    by (cases "get_current_api_key g") auto
  show ?thesis
  proof (cases "\<exists>k. x = Inr (Some k) \<and> k \<noteq> []")
    case False
    then have no: "\<forall>k. x = Inr (Some k) \<longrightarrow> k = []" by blast
    from generate_response_no_loop [OF cur no, of backend owner h b cid um an] assms(1) pos
    show ?thesis by simp
  next
    case True
    then obtain k where x: "x = Inr (Some k)" and k: "k \<noteq> []" by blast
    from assms(2) cur x have key: "Some k = key_at (api_keys g) (current_key_index g1)"
      and keys: "api_keys g1 = api_keys g"
      by (cases g rule: get_current_api_key_cases; simp)+
    let ?st0 = "\<lparr>conf = g1, bstate = b, calls = [], rotations = 0\<rparr>"
    have run: "retry_loop backend owner h cid um an (api_keys g) (Some k) 0 ?st0 = (r, st)"
      using generate_response_loop [OF cur [unfolded x] k, of backend owner h b cid um an] assms(1)
      by (simp add: keys)
    have "\<exists>m \<le> ?n - 0.
        map req_api_key
          (calls (snd (retry_loop backend owner h cid um an (api_keys g) (Some k) 0 ?st0))) =
        map req_api_key (calls ?st0) @
        map (\<lambda>j. key_at (api_keys g) (current_key_index (conf ?st0) + int j)) [0..<m]"
    proof (rule retry_loop_trace)
      show "api_keys (conf ?st0) = api_keys g" by (simp add: keys)
      show "api_keys g \<noteq> []" by (rule assms(2))
      show "Some k = key_at (api_keys g) (current_key_index (conf ?st0))" using key by simp
    qed
    then obtain m where m: "m \<le> ?n"
      and tr: "map req_api_key (calls st) =
         map (\<lambda>j. key_at (api_keys g) (current_key_index g1 + int j)) [0..<m]"
      unfolding run by auto
    from tr have "length (map req_api_key (calls st)) = m" by simp
    then have len: "length (calls st) \<le> ?n" using m by simp
    have dis: "distinct (map req_api_key (calls st))" if "distinct (api_keys g)"
      unfolding tr using that m by (rule distinct_key_seq)
    from retry_loop_rotations [of backend owner h cid um an "api_keys g" "Some k" 0 ?st0]
    have "rotations st = ?n \<longrightarrow> r = Inr all_keys_exhausted_msg"
      by (simp add: run)
    with len dis show ?thesis by blast
  qed
qed



lemma generate_response_one_key:
  assumes "length (api_keys g) = 1"
  shows "rotations (snd (generate_response backend owner h g b cid um an)) = 0"
proof -
  obtain x g1 where cur: "get_current_api_key g = (x, g1)"
    by (cases "get_current_api_key g") auto
  show ?thesis
  proof (cases "\<exists>k. x = Inr (Some k) \<and> k \<noteq> []")
    case False
    then have no: "\<forall>k. x = Inr (Some k) \<longrightarrow> k = []" by blast
    from generate_response_no_loop(2) [OF cur no] show ?thesis .
  next
    case True
    then obtain k where x: "x = Inr (Some k)" and k: "k \<noteq> []" by blast
    have "api_keys g1 = api_keys g"
      using get_current_api_key_keys(1) [OF cur [unfolded x]] .
    with assms have "length (api_keys (conf \<lparr>conf = g1, bstate = b, calls = [], rotations = 0\<rparr>)) < 2"
      by simp
    from retry_loop_one_key [OF this]
    show ?thesis
      unfolding generate_response_loop [OF cur [unfolded x] k] by simp
  qed
qed

lemma generate_response_all_rate_limited:
  assumes many: "2 \<le> length (api_keys g)"
    and cur: "get_current_api_key g = (Inr (Some k), g1)" and k: "k \<noteq> []"
    and fail: "\<And>b r. req_api_key r \<in> Some ` set (api_keys g) \<Longrightarrow>
       \<exists>e b'. backend b r = (Inl e, b') \<and> is_rate_limit_error e"
  shows "\<exists>st. generate_response backend owner h g b cid um an
                 = (Inr all_keys_exhausted_msg, st) \<and>
     rotations st = length (api_keys g) \<and>
     length (calls st) = length (api_keys g) \<and>
     conf st = g1\<lparr>current_key_index :=
        (current_key_index g1 + int (length (api_keys g))) mod int (length (api_keys g))\<rparr>"
proof -
  let ?st0 = "\<lparr>conf = g1, bstate = b, calls = [], rotations = 0\<rparr>"
  have keys: "api_keys g1 = api_keys g" and ne: "api_keys g \<noteq> []"
    using get_current_api_key_keys [OF cur] by simp_all
  from ne cur have key: "Some k = key_at (api_keys g) (current_key_index g1)"
    by (cases g rule: get_current_api_key_cases) simp_all
  have gen: "generate_response backend owner h g b cid um an =
     retry_loop backend owner h cid um an (api_keys g) (Some k) 0 ?st0"
    using generate_response_loop [OF cur k] by (simp add: keys)
  have "\<exists>st'. retry_loop backend owner h cid um an (api_keys g) (Some k) 0 ?st0
                  = (Inr all_keys_exhausted_msg, st') \<and>
      rotations st' = rotations ?st0 + (length (api_keys g) - 0) \<and>
      length (calls st') = length (calls ?st0) + (length (api_keys g) - 0) \<and>
      conf st' = (if 0 = length (api_keys g) then conf ?st0
                  else (conf ?st0)\<lparr>current_key_index :=
                    (current_key_index (conf ?st0) + int (length (api_keys g) - 0))
                      mod int (length (api_keys g))\<rparr>)"
  proof (rule retry_loop_all_rate_limited [OF many])
    show "api_keys (conf ?st0) = api_keys g" by (simp add: keys)
    show "Some k = key_at (api_keys g) (current_key_index (conf ?st0))"
      using key by simp
    show "0 \<le> length (api_keys g)" by simp
    fix b' k' assume "k' \<in> set (api_keys g)"
    then have "req_api_key (build_request (Some k') owner h cid um an) \<in> Some ` set (api_keys g)"
      by simp
    then show "\<exists>e b''. backend b' (build_request (Some k') owner h cid um an) = (Inl e, b'') \<and>
        is_rate_limit_error e"
      by (rule fail)
  qed
  then show ?thesis unfolding gen using many by auto
qed


lemma get_current_two_keys: "get_current_api_key two_keys = (Inr (Some ''k2''), two_keys)"
  using get_current_api_key_in_range [of two_keys] by (simp add: two_keys_def)

text \<open>
  C2, amended: for a non-empty pool of \<open>N\<close> keys one call sends at most \<open>N\<close> requests, and
  with distinct keys no two of them carry the same key. The call returns the
  all-keys-exhausted message when its retry counter reaches \<open>N\<close>; that happens when
  \<open>N \<ge> 2\<close> and every request with a key of the pool fails with an error that the
  classifier takes for a rate limit, after exactly \<open>N\<close> requests, and it never happens
  when \<open>N = 1\<close>.
\<close>

theorem generate_response_attempt_bound:
  assumes "generate_response backend owner h g b cid um an = (r, st)" and "api_keys g \<noteq> []"
  shows "length (calls st) \<le> length (api_keys g) \<and>
     (distinct (api_keys g) \<longrightarrow> distinct (map req_api_key (calls st))) \<and>
     (rotations st = length (api_keys g) \<longrightarrow> r = Inr all_keys_exhausted_msg) \<and>
     (2 \<le> length (api_keys g) \<and>
      (\<exists>k g1. get_current_api_key g = (Inr (Some k), g1) \<and> k \<noteq> []) \<and>
      (\<forall>b r. req_api_key r \<in> Some ` set (api_keys g) \<longrightarrow>
         (\<exists>e b'. backend b r = (Inl e, b') \<and> is_rate_limit_error e))
      \<longrightarrow> r = Inr all_keys_exhausted_msg \<and> rotations st = length (api_keys g) \<and>
          length (calls st) = length (api_keys g)) \<and>
     (length (api_keys g) = 1 \<longrightarrow> rotations st = 0)"
proof -
  note abc = generate_response_attempts [OF assms]
  have d: "r = Inr all_keys_exhausted_msg \<and> rotations st = length (api_keys g) \<and>
          length (calls st) = length (api_keys g)"
    if many: "2 \<le> length (api_keys g)"
      and cur: "\<exists>k g1. get_current_api_key g = (Inr (Some k), g1) \<and> k \<noteq> []"
      and fail: "\<forall>b r. req_api_key r \<in> Some ` set (api_keys g) \<longrightarrow>
         (\<exists>e b'. backend b r = (Inl e, b') \<and> is_rate_limit_error e)"
  proof -
    from cur obtain k g1 where c: "get_current_api_key g = (Inr (Some k), g1)" and k: "k \<noteq> []"
      by blast
    from fail have f: "\<And>b r. req_api_key r \<in> Some ` set (api_keys g) \<Longrightarrow>
         \<exists>e b'. backend b r = (Inl e, b') \<and> is_rate_limit_error e"
      by blast
    from generate_response_all_rate_limited [where backend = backend and owner = owner and h = h
        and b = b and cid = cid and um = um and an = an, OF many c k f]
    show ?thesis unfolding assms(1) by auto
  qed
  have e: "rotations st = 0" if "length (api_keys g) = 1"
    using generate_response_one_key [OF that, where backend = backend and owner = owner
        and h = h and b = b and cid = cid and um = um and an = an]
    unfolding assms(1) by simp
  from abc d e show ?thesis by blast
qed

theorem generate_response_attempt_bound_witness:
  "length (calls (snd (generate_response rate_limited_backend None init_history two_keys 0 7
      ''hello'' ''al''))) = 2 \<and>
   distinct (map req_api_key (calls (snd (generate_response rate_limited_backend None
      init_history two_keys 0 7 ''hello'' ''al'')))) \<and>
   fst (generate_response rate_limited_backend None init_history two_keys 0 7 ''hello'' ''al'')
     = Inr all_keys_exhausted_msg"
proof -
  let ?G = "generate_response rate_limited_backend None init_history two_keys 0 7
      ''hello'' ''al''"
  have run: "?G = (fst ?G, snd ?G)" by simp
  have ne: "api_keys two_keys \<noteq> []" by (simp add: two_keys_def)
  note t = generate_response_attempt_bound [OF run ne]
  have many: "2 \<le> length (api_keys two_keys)" by (simp add: two_keys_def)
  have cur: "\<exists>k g1. get_current_api_key two_keys = (Inr (Some k), g1) \<and> k \<noteq> []"
    using get_current_two_keys by simp
  have fail: "\<forall>b r. req_api_key r \<in> Some ` set (api_keys two_keys) \<longrightarrow>
         (\<exists>e b'. rate_limited_backend b r = (Inl e, b') \<and> is_rate_limit_error e)"
    by (simp add: rate_limited_backend_def simulated_backend_def
          rate_limit_exceeded_is_rate_limit)
  have dis: "distinct (api_keys two_keys)" by (simp add: two_keys_def)
  from t many cur fail dis have "length (calls (snd ?G)) = length (api_keys two_keys)"
    and "distinct (map req_api_key (calls (snd ?G)))"
    and "fst ?G = Inr all_keys_exhausted_msg"
    by blast+
  then show ?thesis by (simp add: two_keys_def)
qed

end
